theory Spec2Isabelle
  imports Main
begin

section \<open>JavaScript values and records\<close>

text \<open>
  The component \<^verbatim>\<open>customMultiSelectPickList.js\<close> reads fields of query records by name and
  tests them for truthiness. A field value is one of the primitive JavaScript values below;
  \<open>Undefined\<close> is what reading a missing field yields. Numbers are modelled as integers
  (the component never does arithmetic on a field). HOL equality on \<open>jsval\<close> is
  \<^verbatim>\<open>===\<close> and the \<^verbatim>\<open>SameValueZero\<close> comparison of \<^verbatim>\<open>Map\<close>,
  \<^verbatim>\<open>Set\<close> and \<^verbatim>\<open>includes\<close>.
\<close>

datatype jsval = Undefined | Null | JBool bool | JNum int | JStr string

fun truthy :: "jsval \<Rightarrow> bool" where
  "truthy Undefined = False"
| "truthy Null = False"
| "truthy (JBool b) = b"
| "truthy (JNum n) = (n \<noteq> 0)"
| "truthy (JStr s) = (s \<noteq> [])"

text \<open>\<^verbatim>\<open>a || b\<close>\<close>

definition js_or :: "jsval \<Rightarrow> jsval \<Rightarrow> jsval" where
  "js_or a b = (if truthy a then a else b)"

text \<open>A query record: \<^verbatim>\<open>record[f]\<close> is \<open>r f\<close>, \<^verbatim>\<open>record.Id\<close> is \<open>r ''Id''\<close>.\<close>

type_synonym raw_record = "string \<Rightarrow> jsval"

text \<open>The result delivered to the wire handler: \<^verbatim>\<open>{data}\<close>, \<^verbatim>\<open>{error}\<close> or neither.\<close>

datatype wire_result = Data "raw_record list" | Failure string | Pending

section \<open>Insertion-ordered \<^verbatim>\<open>Map\<close>\<close>

text \<open>
  A JavaScript \<^verbatim>\<open>Map\<close> iterates in the order in which keys were first inserted;
  \<^verbatim>\<open>set\<close> on a key that is present replaces the value in place.
\<close>

fun Map_has :: "('k \<times> 'v) list \<Rightarrow> 'k \<Rightarrow> bool" where
  "Map_has [] k = False"
| "Map_has ((k', v) # m) k = (k' = k \<or> Map_has m k)"

fun Map_get :: "('k \<times> 'v) list \<Rightarrow> 'k \<Rightarrow> 'v option" where
  "Map_get [] k = None"
| "Map_get ((k', v) # m) k = (if k' = k then Some v else Map_get m k)"

fun Map_set :: "('k \<times> 'v) list \<Rightarrow> 'k \<Rightarrow> 'v \<Rightarrow> ('k \<times> 'v) list" where
  "Map_set [] k v = [(k, v)]"
| "Map_set ((k', v') # m) k v = (if k' = k then (k, v) # m else (k', v') # Map_set m k v)"

section \<open>Component state\<close>

text \<open>An item of an available group: \<^verbatim>\<open>{name, id, isSelected}\<close>.\<close>

record item =
  name_item :: jsval
  id_item :: jsval
  isSelected :: bool

text \<open>A selected record: \<^verbatim>\<open>{name, id}\<close>.\<close>

record selrec =
  name_rec :: jsval
  id_rec :: jsval

datatype icon = ArrowDown | ArrowUp

text \<open>An entry of \<^verbatim>\<open>processedData\<close>.\<close>

record group =
  groupName :: jsval
  items :: "item list"
  isExpanded :: bool
  isAllSelected :: bool
  toggleIcon :: icon
  itemsClass :: string

text \<open>An entry of \<^verbatim>\<open>selectedGroupsData\<close>.\<close>

record chosen_group =
  groupName_c :: jsval
  items_c :: "selrec list"
  isExpanded_c :: bool
  toggleIcon_c :: icon
  itemsClass_c :: string

text \<open>
  The fields of the component. \<open>dispatched\<close> is the log of the
  \<^verbatim>\<open>selection\<close> events sent so far (the \<^verbatim>\<open>selectedRecords\<close> payload of each),
  oldest first.
\<close>

record state =
  groupBy :: "string option"
  pickValues :: "string option"
  preSelectedRecords :: "selrec list"
  processedData :: "group list"
  selectedItems :: "selrec list"
  selectedGroupsData :: "chosen_group list"
  tempSelectedItems :: "jsval list"
  tempChosenItems :: "jsval list"
  isLoading :: bool
  error :: "string option"
  dispatched :: "selrec list list"

definition initial :: "string option \<Rightarrow> string option \<Rightarrow> state" where
  "initial gb pv =
     \<lparr>groupBy = gb, pickValues = pv, preSelectedRecords = [], processedData = [],
      selectedItems = [], selectedGroupsData = [], tempSelectedItems = [],
      tempChosenItems = [], isLoading = True, error = None, dispatched = []\<rparr>"

section \<open>Grouping: \<^verbatim>\<open>processQueryResults\<close>\<close>

text \<open>
  \<^verbatim>\<open>this.groupBy ? (record[this.groupBy] || 'Unassigned') : 'Default Group'\<close>; an unset or
  empty property is falsy.
\<close>

definition groupNameOf :: "string option \<Rightarrow> raw_record \<Rightarrow> jsval" where
  "groupNameOf gb r =
     (case gb of
        None \<Rightarrow> JStr ''Default Group''
      | Some f \<Rightarrow> if f \<noteq> [] then js_or (r f) (JStr ''Unassigned'') else JStr ''Default Group'')"

text \<open>
  \<^verbatim>\<open>this.pickValues ? record[this.pickValues] : record.Name || record.Id\<close>; the
  \<^verbatim>\<open>||\<close> binds tighter than the conditional, so it belongs to the else branch.
\<close>

definition displayValueOf :: "string option \<Rightarrow> raw_record \<Rightarrow> jsval" where
  "displayValueOf pv r =
     (case pv of
        None \<Rightarrow> js_or (r ''Name'') (r ''Id'')
      | Some f \<Rightarrow> if f \<noteq> [] then r f else js_or (r ''Name'') (r ''Id''))"

text \<open>The body of the \<^verbatim>\<open>data.forEach\<close> callback, on the \<^verbatim>\<open>groupMap\<close>.\<close>

definition addRecord ::
  "string option \<Rightarrow> string option \<Rightarrow> (jsval \<times> item list) list \<Rightarrow> raw_record
     \<Rightarrow> (jsval \<times> item list) list" where
  "addRecord gb pv groupMap r =
     (let groupName = groupNameOf gb r;
          displayValue = displayValueOf pv r;
          recordId = r ''Id''
      in if \<not> truthy recordId then groupMap
         else
           let m = (if \<not> Map_has groupMap groupName then Map_set groupMap groupName []
                    else groupMap)
           in case Map_get m groupName of
                None \<Rightarrow> m
              | Some its \<Rightarrow>
                  Map_set m groupName
                    (its @ [\<lparr>name_item = displayValue, id_item = recordId, isSelected = False\<rparr>]))"

definition newGroup :: "jsval \<times> item list \<Rightarrow> group" where
  "newGroup e =
     \<lparr>groupName = fst e, items = snd e, isExpanded = False, isAllSelected = False,
      toggleIcon = ArrowDown, itemsClass = ''items-list collapsed''\<rparr>"

text \<open>
  The argument is \<open>None\<close> for a value that is falsy or not an array, which empties
  \<^verbatim>\<open>processedData\<close>.
\<close>

definition processQueryResults :: "raw_record list option \<Rightarrow> state \<Rightarrow> state" where
  "processQueryResults data s =
     (case data of
        None \<Rightarrow> s\<lparr>processedData := []\<rparr>
      | Some d \<Rightarrow>
          s\<lparr>processedData :=
              map newGroup (foldl (addRecord (groupBy s) (pickValues s)) [] d)\<rparr>)"

section \<open>Rollups: \<^verbatim>\<open>updateSelectedGroupsData\<close>, \<^verbatim>\<open>restoreSelection\<close>\<close>

definition isChosen :: "selrec list \<Rightarrow> item \<Rightarrow> bool" where
  "isChosen sel it = list_ex (\<lambda>si. id_rec si = id_item it) sel"

definition toRec :: "item \<Rightarrow> selrec" where
  "toRec i = \<lparr>name_rec = name_item i, id_rec = id_item i\<rparr>"

definition addChosenGroup ::
  "selrec list \<Rightarrow> (jsval \<times> chosen_group) list \<Rightarrow> group \<Rightarrow> (jsval \<times> chosen_group) list" where
  "addChosenGroup sel groupsMap g =
     (let selectedInGroup = filter (isChosen sel) (items g)
      in if length selectedInGroup > 0
         then Map_set groupsMap (groupName g)
                \<lparr>groupName_c = groupName g, items_c = map toRec selectedInGroup,
                 isExpanded_c = True, toggleIcon_c = ArrowUp,
                 itemsClass_c = ''items-list expanded''\<rparr>
         else groupsMap)"

definition updateSelectedGroupsData :: "state \<Rightarrow> state" where
  "updateSelectedGroupsData s =
     s\<lparr>selectedGroupsData :=
         map snd (foldl (addChosenGroup (selectedItems s)) [] (processedData s))\<rparr>"

definition restoreGroup :: "jsval set \<Rightarrow> group \<Rightarrow> group" where
  "restoreGroup selectedIds g =
     (let updatedItems = map (\<lambda>it. it\<lparr>isSelected := id_item it \<in> selectedIds\<rparr>) (items g);
          allSelected = (length updatedItems > 0 \<and> list_all isSelected updatedItems)
      in g\<lparr>items := updatedItems, isAllSelected := allSelected\<rparr>)"

definition restoreSelection :: "state \<Rightarrow> state" where
  "restoreSelection s =
     (if length (preSelectedRecords s) = 0 then s
      else
        let selectedIds = set (map id_rec (preSelectedRecords s))
        in updateSelectedGroupsData
             (s\<lparr>selectedItems :=
                   map (\<lambda>r. \<lparr>name_rec = name_rec r, id_rec = id_rec r\<rparr>) (preSelectedRecords s),
                processedData := map (restoreGroup selectedIds) (processedData s)\<rparr>))"

section \<open>Data load: \<^verbatim>\<open>wiredData\<close>\<close>

definition wiredData :: "wire_result \<Rightarrow> state \<Rightarrow> state" where
  "wiredData w s =
     (case w of
        Data d \<Rightarrow>
          let s1 = processQueryResults (Some d) (s\<lparr>isLoading := False, error := None\<rparr>)
          in if length (preSelectedRecords s1) > 0 then restoreSelection s1 else s1
      | Failure e \<Rightarrow> s\<lparr>isLoading := False, error := Some e, processedData := []\<rparr>
      | Pending \<Rightarrow> s\<lparr>isLoading := True\<rparr>)"

section \<open>Public surface\<close>

definition emitSelectionEvent :: "state \<Rightarrow> state" where
  "emitSelectionEvent s =
     s\<lparr>dispatched :=
         dispatched s
           @ [map (\<lambda>i. \<lparr>name_rec = name_rec i, id_rec = id_rec i\<rparr>) (selectedItems s)]\<rparr>"

definition getSelectedRecords :: "state \<Rightarrow> selrec list" where
  "getSelectedRecords s = selectedItems s"

text \<open>The setter of the \<^verbatim>\<open>selectedRecords\<close> property; \<open>None\<close> is a falsy value.\<close>

definition set_selectedRecords :: "selrec list option \<Rightarrow> state \<Rightarrow> state" where
  "set_selectedRecords v s =
     (let s1 = s\<lparr>preSelectedRecords := (case v of None \<Rightarrow> [] | Some x \<Rightarrow> x)\<rparr>
      in if length (processedData s1) > 0 \<and> length (preSelectedRecords s1) > 0
         then restoreSelection s1 else s1)"

definition setSelectedRecords :: "selrec list option \<Rightarrow> state \<Rightarrow> state" where
  "setSelectedRecords records s =
     (let s1 = s\<lparr>preSelectedRecords := (case records of None \<Rightarrow> [] | Some x \<Rightarrow> x)\<rparr>
      in if length (processedData s1) > 0 then restoreSelection s1 else s1)"

definition resetSelections :: "state \<Rightarrow> state" where
  "resetSelections s =
     emitSelectionEvent
       (s\<lparr>selectedItems := [], selectedGroupsData := [], tempSelectedItems := [],
          tempChosenItems := [], preSelectedRecords := [],
          processedData :=
            map (\<lambda>g. g\<lparr>isAllSelected := False,
                        items := map (\<lambda>it. it\<lparr>isSelected := False\<rparr>) (items g)\<rparr>)
              (processedData s)\<rparr>)"

section \<open>View toggles\<close>

definition flipExpanded :: "group \<Rightarrow> group" where
  "flipExpanded g =
     (let e = \<not> isExpanded g
      in g\<lparr>isExpanded := e, toggleIcon := (if e then ArrowUp else ArrowDown),
           itemsClass := (if e then ''items-list expanded'' else ''items-list collapsed'')\<rparr>)"

definition toggleGroup :: "string \<Rightarrow> state \<Rightarrow> state" where
  "toggleGroup gname s =
     s\<lparr>processedData :=
         map (\<lambda>g. if groupName g = JStr gname then flipExpanded g else g) (processedData s)\<rparr>"

definition flipExpanded_c :: "chosen_group \<Rightarrow> chosen_group" where
  "flipExpanded_c g =
     (let e = \<not> isExpanded_c g
      in g\<lparr>isExpanded_c := e, toggleIcon_c := (if e then ArrowUp else ArrowDown),
           itemsClass_c := (if e then ''items-list expanded'' else ''items-list collapsed'')\<rparr>)"

definition toggleSelectedGroup :: "string \<Rightarrow> state \<Rightarrow> state" where
  "toggleSelectedGroup gname s =
     s\<lparr>selectedGroupsData :=
         map (\<lambda>g. if groupName_c g = JStr gname then flipExpanded_c g else g)
           (selectedGroupsData s)\<rparr>"

section \<open>Staging and moves\<close>

text \<open>
  The ids and group names that the handlers read from \<^verbatim>\<open>event.target.dataset\<close> are
  strings.
\<close>

definition handleItemSelect :: "string \<Rightarrow> bool \<Rightarrow> state \<Rightarrow> state" where
  "handleItemSelect itemId isChecked s =
     (if isChecked
      then (if JStr itemId \<notin> set (tempSelectedItems s)
            then s\<lparr>tempSelectedItems := tempSelectedItems s @ [JStr itemId]\<rparr> else s)
      else s\<lparr>tempSelectedItems := filter (\<lambda>i. i \<noteq> JStr itemId) (tempSelectedItems s)\<rparr>)"

definition selectChosenItem :: "string \<Rightarrow> state \<Rightarrow> state" where
  "selectChosenItem itemId s =
     (if JStr itemId \<in> set (tempChosenItems s)
      then s\<lparr>tempChosenItems := filter (\<lambda>i. i \<noteq> JStr itemId) (tempChosenItems s)\<rparr>
      else s\<lparr>tempChosenItems := tempChosenItems s @ [JStr itemId]\<rparr>)"

text \<open>
  The \<^verbatim>\<open>forEach\<close> of \<^verbatim>\<open>handleGroupSelect\<close> assigns \<^verbatim>\<open>this.selectedItems\<close>
  inside the loop, so the selection is threaded through it together with \<^verbatim>\<open>updatedData\<close>.
\<close>

fun groupSelectLoop ::
  "jsval \<Rightarrow> bool \<Rightarrow> group list \<Rightarrow> selrec list \<Rightarrow> selrec list \<times> group list" where
  "groupSelectLoop gn isChecked [] sel = (sel, [])"
| "groupSelectLoop gn isChecked (g # gs) sel =
     (if groupName g = gn then
        let updatedItems = map (\<lambda>it. it\<lparr>isSelected := isChecked\<rparr>) (items g);
            sel1 = (if isChecked
                    then sel @ map toRec (filter (\<lambda>it. \<not> isChosen sel it) updatedItems)
                    else filter (\<lambda>si. id_rec si \<notin> set (map id_item updatedItems)) sel);
            (sel2, rest) = groupSelectLoop gn isChecked gs sel1
        in (sel2, g\<lparr>items := updatedItems, isAllSelected := isChecked\<rparr> # rest)
      else
        let (sel2, rest) = groupSelectLoop gn isChecked gs sel
        in (sel2, g # rest))"

definition handleGroupSelect :: "string \<Rightarrow> bool \<Rightarrow> state \<Rightarrow> state" where
  "handleGroupSelect gname isChecked s =
     (let (sel, updatedData) =
            groupSelectLoop (JStr gname) isChecked (processedData s) (selectedItems s)
      in emitSelectionEvent
           (updateSelectedGroupsData (s\<lparr>selectedItems := sel, processedData := updatedData\<rparr>)))"

text \<open>The \<^verbatim>\<open>idToItem\<close> map of \<^verbatim>\<open>moveSelectedToChosen\<close>.\<close>

definition idToItem :: "group list \<Rightarrow> (jsval \<times> item) list" where
  "idToItem gs = foldl (\<lambda>m it. Map_set m (id_item it) it) [] (concat (map items gs))"

definition markGroup :: "(item \<Rightarrow> bool) \<Rightarrow> bool \<Rightarrow> group \<Rightarrow> group" where
  "markGroup hit v g =
     (let updatedItems = map (\<lambda>it. if hit it then it\<lparr>isSelected := v\<rparr> else it) (items g);
          allSelected = list_all isSelected updatedItems
      in g\<lparr>items := updatedItems, isAllSelected := allSelected\<rparr>)"

definition moveSelectedToChosen :: "state \<Rightarrow> state" where
  "moveSelectedToChosen s =
     (if length (tempSelectedItems s) = 0 then s
      else
        let m = idToItem (processedData s);
            existingIds = set (map id_rec (selectedItems s));
            itemsToAdd =
              map toRec
                (filter (\<lambda>i. id_item i \<notin> existingIds)
                   (List.map_filter (Map_get m) (tempSelectedItems s)));
            temp = tempSelectedItems s
        in emitSelectionEvent
             (updateSelectedGroupsData
                (s\<lparr>selectedItems := selectedItems s @ itemsToAdd,
                   processedData :=
                     map (markGroup (\<lambda>it. id_item it \<in> set temp) True) (processedData s),
                   tempSelectedItems := []\<rparr>)))"

definition moveChosenToAvailable :: "state \<Rightarrow> state" where
  "moveChosenToAvailable s =
     (if length (tempChosenItems s) = 0 then s
      else
        let temp = tempChosenItems s
        in emitSelectionEvent
             (updateSelectedGroupsData
                (s\<lparr>selectedItems := filter (\<lambda>si. id_rec si \<notin> set temp) (selectedItems s),
                   processedData :=
                     map (markGroup (\<lambda>it. id_item it \<in> set temp) False) (processedData s),
                   tempChosenItems := []\<rparr>)))"

definition removeItem :: "string \<Rightarrow> state \<Rightarrow> state" where
  "removeItem itemIdToRemove s =
     emitSelectionEvent
       (updateSelectedGroupsData
          (s\<lparr>selectedItems :=
                filter (\<lambda>si. id_rec si \<noteq> JStr itemIdToRemove) (selectedItems s),
             processedData :=
                map (markGroup (\<lambda>it. id_item it = JStr itemIdToRemove) False)
                  (processedData s)\<rparr>))"

fun removeGroupLoop :: "jsval \<Rightarrow> group list \<Rightarrow> selrec list \<Rightarrow> selrec list \<times> group list" where
  "removeGroupLoop gn [] sel = (sel, [])"
| "removeGroupLoop gn (g # gs) sel =
     (if groupName g = gn then
        let itemsToRemove = map id_item (items g);
            sel1 = filter (\<lambda>si. id_rec si \<notin> set itemsToRemove) sel;
            updatedItems = map (\<lambda>it. it\<lparr>isSelected := False\<rparr>) (items g);
            (sel2, rest) = removeGroupLoop gn gs sel1
        in (sel2, g\<lparr>items := updatedItems, isAllSelected := False\<rparr> # rest)
      else
        let (sel2, rest) = removeGroupLoop gn gs sel
        in (sel2, g # rest))"

definition removeGroup :: "string \<Rightarrow> state \<Rightarrow> state" where
  "removeGroup groupToRemove s =
     (let (sel, updatedData) =
            removeGroupLoop (JStr groupToRemove) (processedData s) (selectedItems s)
      in emitSelectionEvent
           (updateSelectedGroupsData (s\<lparr>selectedItems := sel, processedData := updatedData\<rparr>)))"

section \<open>Operations and runs\<close>

text \<open>
  Everything that can happen to the component: the wire handler, the public methods and
  the event handlers of the template.
\<close>

datatype op =
    WiredData wire_result
  | Set_selectedRecords "selrec list option"
  | SetSelectedRecords "selrec list option"
  | ResetSelections
  | ToggleGroup string
  | ToggleSelectedGroup string
  | HandleGroupSelect string bool
  | HandleItemSelect string bool
  | MoveSelectedToChosen
  | MoveChosenToAvailable
  | SelectChosenItem string
  | RemoveItem string
  | RemoveGroup string

fun step :: "op \<Rightarrow> state \<Rightarrow> state" where
  "step (WiredData w) s = wiredData w s"
| "step (Set_selectedRecords v) s = set_selectedRecords v s"
| "step (SetSelectedRecords v) s = setSelectedRecords v s"
| "step ResetSelections s = resetSelections s"
| "step (ToggleGroup g) s = toggleGroup g s"
| "step (ToggleSelectedGroup g) s = toggleSelectedGroup g s"
| "step (HandleGroupSelect g c) s = handleGroupSelect g c s"
| "step (HandleItemSelect i c) s = handleItemSelect i c s"
| "step MoveSelectedToChosen s = moveSelectedToChosen s"
| "step MoveChosenToAvailable s = moveChosenToAvailable s"
| "step (SelectChosenItem i) s = selectChosenItem i s"
| "step (RemoveItem i) s = removeItem i s"
| "step (RemoveGroup g) s = removeGroup g s"

fun run :: "op list \<Rightarrow> state \<Rightarrow> state" where
  "run [] s = s"
| "run (x # xs) s = run xs (step x s)"

text \<open>
  A run is admissible for a side condition \<open>ok\<close> on single operations when every
  operation satisfies \<open>ok\<close> in the state in which it is applied.
\<close>

fun admissible :: "(state \<Rightarrow> op \<Rightarrow> bool) \<Rightarrow> state \<Rightarrow> op list \<Rightarrow> bool" where
  "admissible ok s [] = True"
| "admissible ok s (x # xs) = (ok s x \<and> admissible ok (step x s) xs)"

section \<open>Properties of states\<close>

text \<open>The ids of the SelectionSet, and the ids of the loaded items.\<close>

definition selectedIds :: "state \<Rightarrow> jsval set" where
  "selectedIds s = set (map id_rec (selectedItems s))"

definition loadedIds :: "state \<Rightarrow> jsval set" where
  "loadedIds s = set (map id_item (concat (map items (processedData s))))"

text \<open>
  A group agrees with a set of chosen ids when each item's flag says whether its id is
  chosen, and the group's rollup flag says whether the group is non-empty with every member
  chosen.
\<close>

definition group_ok :: "jsval set \<Rightarrow> group \<Rightarrow> bool" where
  "group_ok ids g =
     (list_all (\<lambda>it. isSelected it = (id_item it \<in> ids)) (items g) \<and>
      isAllSelected g = (items g \<noteq> [] \<and> list_all (\<lambda>it. id_item it \<in> ids) (items g)))"

text \<open>The rollup invariant: \<open>allSelected\<close> iff non-empty and every member id chosen.\<close>

definition allSelected_inv :: "state \<Rightarrow> bool" where
  "allSelected_inv s =
     list_all
       (\<lambda>g. isAllSelected g =
             (items g \<noteq> [] \<and> list_all (\<lambda>it. id_item it \<in> selectedIds s) (items g)))
       (processedData s)"

text \<open>
  The grouping is well formed: group names are distinct, no group is empty, and ids are
  unique across all groups.
\<close>

definition wf_groups :: "group list \<Rightarrow> bool" where
  "wf_groups gs =
     (distinct (map groupName gs) \<and> list_all (\<lambda>g. items g \<noteq> []) gs \<and>
      distinct (map id_item (concat (map items gs))))"

text \<open>The records of a load that are kept (truthy id) carry pairwise different ids.\<close>

definition uniqueIds :: "raw_record list \<Rightarrow> bool" where
  "uniqueIds d = distinct (map (\<lambda>r. r ''Id'') (filter (\<lambda>r. truthy (r ''Id'')) d))"

text \<open>
  The id-to-group index of the loaded grouping, and the pairs (id, group) shown in the
  chosen view.
\<close>

definition groupIndex :: "group list \<Rightarrow> (jsval \<times> jsval) list" where
  "groupIndex gs = concat (map (\<lambda>g. map (\<lambda>it. (id_item it, groupName g)) (items g)) gs)"

definition chosenPairs :: "chosen_group list \<Rightarrow> (jsval \<times> jsval) list" where
  "chosenPairs cs = concat (map (\<lambda>c. map (\<lambda>r. (id_rec r, groupName_c c)) (items_c c)) cs)"

text \<open>
  The chosen view is the SelectionSet partitioned by group: it shows an id under a group
  exactly when the id is chosen and the index maps it to that group; no entry is empty and
  no group appears twice.
\<close>

definition chosen_inv :: "state \<Rightarrow> bool" where
  "chosen_inv s =
     (set (chosenPairs (selectedGroupsData s)) =
        set (filter (\<lambda>p. fst p \<in> selectedIds s) (groupIndex (processedData s))) \<and>
      list_all (\<lambda>c. items_c c \<noteq> []) (selectedGroupsData s) \<and>
      distinct (map groupName_c (selectedGroupsData s)))"

text \<open>
  The relative order of the ids that stay is unchanged and new ids come after them.
\<close>

definition keeps_order :: "jsval list \<Rightarrow> jsval list \<Rightarrow> bool" where
  "keeps_order old new =
     (new = filter (\<lambda>i. i \<in> set new) old @ filter (\<lambda>i. i \<notin> set old) new)"

text \<open>The list a setter stores: a falsy argument counts as the empty list.\<close>

definition listOf :: "selrec list option \<Rightarrow> selrec list" where
  "listOf v = (case v of None \<Rightarrow> [] | Some x \<Rightarrow> x)"

text \<open>The operations that run \<^verbatim>\<open>restoreSelection\<close> on a non-empty pre-selection.\<close>

fun restores :: "state \<Rightarrow> op \<Rightarrow> bool" where
  "restores s (WiredData (Data d)) = (preSelectedRecords s \<noteq> [])"
| "restores s (Set_selectedRecords v) = (processedData s \<noteq> [] \<and> listOf v \<noteq> [])"
| "restores s (SetSelectedRecords v) = (processedData s \<noteq> [] \<and> listOf v \<noteq> [])"
| "restores s x = False"

text \<open>Side conditions on single operations, used for runs.\<close>

text \<open>
  Loads deliver unique ids; a load that finds no pre-selected records pending meets no id
  that is already chosen.
\<close>

fun load_fresh :: "state \<Rightarrow> op \<Rightarrow> bool" where
  "load_fresh s (WiredData (Data d)) =
     (uniqueIds d \<and>
      (preSelectedRecords s \<noteq> [] \<or>
       list_all (\<lambda>r. r ''Id'' \<notin> selectedIds s) (filter (\<lambda>r. truthy (r ''Id'')) d)))"
| "load_fresh s x = True"

text \<open>
  A load that finds no pre-selected records pending, and a fetch failure, arrive while
  nothing is chosen.
\<close>

fun load_unchosen :: "state \<Rightarrow> op \<Rightarrow> bool" where
  "load_unchosen s (WiredData (Data d)) = (preSelectedRecords s \<noteq> [] \<or> selectedItems s = [])"
| "load_unchosen s (WiredData (Failure e)) = (selectedItems s = [])"
| "load_unchosen s x = True"

text \<open>Loads deliver unique ids and the lists handed to the setters repeat no id.\<close>

fun inputs_distinct :: "state \<Rightarrow> op \<Rightarrow> bool" where
  "inputs_distinct s (WiredData (Data d)) = uniqueIds d"
| "inputs_distinct s (Set_selectedRecords v) = distinct (map id_rec (listOf v))"
| "inputs_distinct s (SetSelectedRecords v) = distinct (map id_rec (listOf v))"
| "inputs_distinct s x = True"

section \<open>Invariants of runs\<close>

text \<open>
  What the operations other than a load leave alone in \<^verbatim>\<open>processedData\<close>: the group
  names and, per group, the ids of its items in order.
\<close>

definition shape :: "group list \<Rightarrow> (jsval \<times> jsval list) list" where
  "shape gs = map (\<lambda>g. (groupName g, map id_item (items g))) gs"

text \<open>The entry that \<^verbatim>\<open>updateSelectedGroupsData\<close> stores for a group.\<close>

definition chosenEntry :: "selrec list \<Rightarrow> group \<Rightarrow> chosen_group" where
  "chosenEntry sel g =
     \<lparr>groupName_c = groupName g, items_c = map toRec (filter (isChosen sel) (items g)),
      isExpanded_c = True, toggleIcon_c = ArrowUp, itemsClass_c = ''items-list expanded''\<rparr>"

text \<open>The invariants carried along a run.\<close>

definition rollup_inv :: "state \<Rightarrow> bool" where
  "rollup_inv s =
     (wf_groups (processedData s) \<and> list_all (group_ok (selectedIds s)) (processedData s))"

definition view_inv :: "state \<Rightarrow> bool" where
  "view_inv s = (distinct (map groupName (processedData s)) \<and> chosen_inv s)"

definition selection_inv :: "state \<Rightarrow> bool" where
  "selection_inv s =
     (wf_groups (processedData s) \<and> distinct (map id_rec (selectedItems s)) \<and>
      distinct (tempSelectedItems s) \<and> distinct (map id_rec (preSelectedRecords s)))"

section \<open>Grouping helpers\<close>

text \<open>
  The item that \<^verbatim>\<open>processQueryResults\<close> pushes for a record, and the records it keeps
  (those whose \<^verbatim>\<open>Id\<close> is truthy).
\<close>

definition itemOf :: "string option \<Rightarrow> raw_record \<Rightarrow> item" where
  "itemOf pv r = \<lparr>name_item = displayValueOf pv r, id_item = r ''Id'', isSelected = False\<rparr>"

definition kept :: "raw_record \<Rightarrow> bool" where
  "kept r = truthy (r ''Id'')"

section \<open>Example inputs\<close>

text \<open>Three example records: two in category X, one in category Y.\<close>

definition recA :: raw_record where
  "recA = (\<lambda>_. Undefined)(''Id'' := JStr ''1'', ''Name'' := JStr ''A'', ''Cat'' := JStr ''X'')"

definition recB :: raw_record where
  "recB = (\<lambda>_. Undefined)(''Id'' := JStr ''2'', ''Name'' := JStr ''B'', ''Cat'' := JStr ''X'')"

definition recC :: raw_record where
  "recC = (\<lambda>_. Undefined)(''Id'' := JStr ''3'', ''Name'' := JStr ''C'', ''Cat'' := JStr ''Y'')"

text \<open>A record with an id and nothing else.\<close>

definition recBare :: raw_record where
  "recBare = (\<lambda>_. Undefined)(''Id'' := JStr ''7'')"

definition selA :: selrec where
  "selA = \<lparr>name_rec = JStr ''A'', id_rec = JStr ''1''\<rparr>"

definition selB :: selrec where
  "selB = \<lparr>name_rec = JStr ''B'', id_rec = JStr ''2''\<rparr>"

text \<open>The state after loading the three records grouped by \<open>Cat\<close>.\<close>

definition loadedABC :: state where
  "loadedABC = wiredData (Data [recA, recB, recC]) (initial (Some ''Cat'') None)"

text \<open>The state after staging ids 1 and 2 and moving them to the chosen side.\<close>

definition chosenAB :: state where
  "chosenAB =
     moveSelectedToChosen (handleItemSelect ''2'' True (handleItemSelect ''1'' True loadedABC))"

section \<open>Basic facts\<close>

lemma selrec_copy: "\<lparr>name_rec = name_rec r, id_rec = id_rec r\<rparr> = r"
  by (cases r) simp

lemma selrec_copy_map: "map (\<lambda>r. \<lparr>name_rec = name_rec r, id_rec = id_rec r\<rparr>) X = X"
  by (induction X) (simp_all add: selrec_copy)

lemma id_rec_toRec: "id_rec \<circ> toRec = id_item"
  by (rule ext) (simp add: toRec_def)

lemma Map_get_set: "Map_get (Map_set m k v) k' = (if k' = k then Some v else Map_get m k')"
  by (induction m) auto

lemma Map_get_fold_other:
  "k \<notin> id_item ` set its \<Longrightarrow>
   Map_get (foldl (\<lambda>m it. Map_set m (id_item it) it) m its) k = Map_get m k"
  by (induction its arbitrary: m) (auto simp: Map_get_set)

lemma Map_get_fold_key:
  "Map_get (foldl (\<lambda>m it. Map_set m (id_item it) it) m its) k = Some it \<Longrightarrow>
   id_item it \<noteq> k \<Longrightarrow> Map_get m k = Some it"
proof (induction its arbitrary: m)
  case Nil
  then show ?case by simp
next
  case (Cons a its)
  from Cons.prems have "Map_get (Map_set m (id_item a) a) k = Some it"
    using Cons.IH[of "Map_set m (id_item a) a"] by simp
  with Cons.prems(2) show ?case by (auto simp: Map_get_set split: if_splits)
qed

lemma Map_get_fold_found:
  "k \<in> id_item ` set its \<Longrightarrow>
   \<exists>it. Map_get (foldl (\<lambda>m it. Map_set m (id_item it) it) m its) k = Some it"
proof (induction its arbitrary: m)
  case Nil
  then show ?case by simp
next
  case (Cons a its)
  show ?case
  proof (cases "k \<in> id_item ` set its")
    case True
    then show ?thesis using Cons.IH by simp
  next
    case False
    with Cons.prems have "id_item a = k" by auto
    with False show ?thesis by (simp add: Map_get_fold_other Map_get_set)
  qed
qed

lemma idToItem_None:
  "Map_get (idToItem gs) k = None \<longleftrightarrow> k \<notin> set (map id_item (concat (map items gs)))"
  using Map_get_fold_found[of k "concat (map items gs)" "[]"]
    Map_get_fold_other[of k "concat (map items gs)" "[]"]
  unfolding idToItem_def by (cases "k \<in> id_item ` set (concat (map items gs))") auto

lemma idToItem_Some: "Map_get (idToItem gs) k = Some it \<Longrightarrow> id_item it = k"
  using Map_get_fold_key[of "[]" "concat (map items gs)" k it]
  unfolding idToItem_def by auto

text \<open>
  The ids that \<^verbatim>\<open>moveSelectedToChosen\<close> adds: the staged ids, in staging order, that
  belong to a loaded item and are not in the set \<open>E\<close> of existing ids.
\<close>

lemma itemsToAdd_ids:
  "map id_item (filter (\<lambda>i. id_item i \<notin> E) (List.map_filter (Map_get (idToItem gs)) temp)) =
   filter (\<lambda>k. k \<in> set (map id_item (concat (map items gs))) \<and> k \<notin> E) temp"
proof (induction temp)
  case Nil
  then show ?case by (simp add: List.map_filter_simps)
next
  case (Cons k temp)
  show ?case
  proof (cases "Map_get (idToItem gs) k")
    case None
    then show ?thesis
      using Cons idToItem_None[of gs k] by (simp add: List.map_filter_simps)
  next
    case (Some it)
    then have "id_item it = k" by (rule idToItem_Some)
    moreover have "k \<in> set (map id_item (concat (map items gs)))"
      using Some idToItem_None[of gs k] by auto
    ultimately show ?thesis using Cons Some by (simp add: List.map_filter_simps)
  qed
qed

section \<open>The example states, evaluated\<close>

lemmas eval_defs =
  wiredData_def initial_def processQueryResults_def addRecord_def groupNameOf_def
  displayValueOf_def js_or_def newGroup_def Let_def recA_def recB_def recC_def recBare_def
  selA_def selB_def moveSelectedToChosen_def moveChosenToAvailable_def handleItemSelect_def
  selectChosenItem_def idToItem_def markGroup_def emitSelectionEvent_def
  updateSelectedGroupsData_def addChosenGroup_def isChosen_def toRec_def
  List.map_filter_simps restoreSelection_def restoreGroup_def handleGroupSelect_def
  removeItem_def removeGroup_def setSelectedRecords_def set_selectedRecords_def
  resetSelections_def getSelectedRecords_def

lemma loadedABC_eval:
  "loadedABC =
     \<lparr>groupBy = Some ''Cat'', pickValues = None, preSelectedRecords = [],
      processedData =
        [\<lparr>groupName = JStr ''X'',
          items =
            [\<lparr>name_item = JStr ''A'', id_item = JStr ''1'', isSelected = False\<rparr>,
             \<lparr>name_item = JStr ''B'', id_item = JStr ''2'', isSelected = False\<rparr>],
          isExpanded = False, isAllSelected = False, toggleIcon = ArrowDown,
          itemsClass = ''items-list collapsed''\<rparr>,
         \<lparr>groupName = JStr ''Y'',
          items = [\<lparr>name_item = JStr ''C'', id_item = JStr ''3'', isSelected = False\<rparr>],
          isExpanded = False, isAllSelected = False, toggleIcon = ArrowDown,
          itemsClass = ''items-list collapsed''\<rparr>],
      selectedItems = [], selectedGroupsData = [], tempSelectedItems = [],
      tempChosenItems = [], isLoading = False, error = None, dispatched = []\<rparr>"
  unfolding loadedABC_def by (simp add: eval_defs)

lemma chosenAB_eval:
  "chosenAB =
     \<lparr>groupBy = Some ''Cat'', pickValues = None, preSelectedRecords = [],
      processedData =
        [\<lparr>groupName = JStr ''X'',
          items =
            [\<lparr>name_item = JStr ''A'', id_item = JStr ''1'', isSelected = True\<rparr>,
             \<lparr>name_item = JStr ''B'', id_item = JStr ''2'', isSelected = True\<rparr>],
          isExpanded = False, isAllSelected = True, toggleIcon = ArrowDown,
          itemsClass = ''items-list collapsed''\<rparr>,
         \<lparr>groupName = JStr ''Y'',
          items = [\<lparr>name_item = JStr ''C'', id_item = JStr ''3'', isSelected = False\<rparr>],
          isExpanded = False, isAllSelected = False, toggleIcon = ArrowDown,
          itemsClass = ''items-list collapsed''\<rparr>],
      selectedItems = [selA, selB],
      selectedGroupsData =
        [\<lparr>groupName_c = JStr ''X'', items_c = [selA, selB], isExpanded_c = True,
          toggleIcon_c = ArrowUp, itemsClass_c = ''items-list expanded''\<rparr>],
      tempSelectedItems = [], tempChosenItems = [], isLoading = False, error = None,
      dispatched = [[selA, selB]]\<rparr>"
  unfolding chosenAB_def loadedABC_eval by (simp add: eval_defs)

section \<open>Per-item removal\<close>

text \<open>
  C1, as the code has it: for every state and every id, \<^verbatim>\<open>removeItem\<close> removes the id
  from the SelectionSet (the other chosen records stay, in order) and leaves both staging
  registers as they were; it does not take the id out of \<^verbatim>\<open>tempChosenItems\<close>.
\<close>

theorem removeItem_selection_only:
  "selectedItems (removeItem i s) = filter (\<lambda>si. id_rec si \<noteq> JStr i) (selectedItems s) \<and>
   JStr i \<notin> set (map id_rec (selectedItems (removeItem i s))) \<and>
   tempChosenItems (removeItem i s) = tempChosenItems s \<and>
   tempSelectedItems (removeItem i s) = tempSelectedItems s"
  by (auto simp add: removeItem_def emitSelectionEvent_def updateSelectedGroupsData_def)

text \<open>
  C1 as stated fails: with ids 1 and 2 chosen and id 1 marked on the chosen side, removing
  item 1 leaves id 1 in the pending-chosen register.
\<close>

theorem removeItem_keeps_pendingChosen:
  "JStr ''1'' \<in> set (tempChosenItems (selectChosenItem ''1'' chosenAB)) \<and>
   JStr ''1'' \<in> set (tempChosenItems (removeItem ''1'' (selectChosenItem ''1'' chosenAB)))"
  unfolding chosenAB_eval by (simp add: eval_defs)

section \<open>Pre-selection round trip\<close>

text \<open>
  C5: for every sequence \<open>X\<close> of records, calling \<^verbatim>\<open>setSelectedRecords(X)\<close> while
  nothing is chosen yet (or with a non-empty \<open>X\<close> in any state) and then loading data
  makes \<^verbatim>\<open>getSelectedRecords()\<close> return exactly \<open>X\<close>: the same ids in the same order.
\<close>

theorem setSelectedRecords_roundtrip:
  assumes "X \<noteq> [] \<or> selectedItems s = []"
  shows "getSelectedRecords (wiredData (Data d) (setSelectedRecords (Some X) s)) = X \<and>
         map id_rec (getSelectedRecords (wiredData (Data d) (setSelectedRecords (Some X) s)))
           = map id_rec X"
  using assms
  by (auto simp add: getSelectedRecords_def wiredData_def setSelectedRecords_def
      restoreSelection_def processQueryResults_def updateSelectedGroupsData_def Let_def
      selrec_copy_map)

theorem setSelectedRecords_roundtrip_witness:
  "[selB, selA] \<noteq> [] \<and>
   getSelectedRecords
     (wiredData (Data [recA, recB, recC])
        (setSelectedRecords (Some [selB, selA]) (initial (Some ''Cat'') None))) = [selB, selA]"
  using setSelectedRecords_roundtrip
    [of "[selB, selA]" "initial (Some ''Cat'') None" "[recA, recB, recC]"]
  by simp

section \<open>Committing the staged ids\<close>

text \<open>
  C6, as the code has it: for every state, \<^verbatim>\<open>moveSelectedToChosen\<close> appends to the
  SelectionSet, in staging order, exactly those staged ids that belong to a loaded item and
  are not already present, and clears the register; with an empty register it changes
  nothing and sends no event, otherwise it sends one event carrying the new selection.
\<close>

theorem moveSelectedToChosen_commit:
  "map id_rec (selectedItems (moveSelectedToChosen s)) =
     map id_rec (selectedItems s)
       @ filter (\<lambda>k. k \<in> loadedIds s \<and> k \<notin> selectedIds s) (tempSelectedItems s)
   \<and> tempSelectedItems (moveSelectedToChosen s) = []
   \<and> (tempSelectedItems s = [] \<longrightarrow> moveSelectedToChosen s = s)
   \<and> (tempSelectedItems s \<noteq> [] \<longrightarrow>
        dispatched (moveSelectedToChosen s)
          = dispatched s @ [selectedItems (moveSelectedToChosen s)])"
  using itemsToAdd_ids
    [of "set (map id_rec (selectedItems s))" "processedData s" "tempSelectedItems s"]
  by (simp add: moveSelectedToChosen_def emitSelectionEvent_def updateSelectedGroupsData_def
      Let_def loadedIds_def selectedIds_def selrec_copy_map id_rec_toRec del: set_map)

theorem moveSelectedToChosen_commit_witness:
  "tempSelectedItems (handleItemSelect ''3'' True chosenAB) \<noteq> [] \<and>
   map id_rec (selectedItems (moveSelectedToChosen (handleItemSelect ''3'' True chosenAB)))
     = [JStr ''1'', JStr ''2'', JStr ''3''] \<and>
   moveSelectedToChosen chosenAB = chosenAB"
  using moveSelectedToChosen_commit [of "handleItemSelect ''3'' True chosenAB"]
    moveSelectedToChosen_commit [of chosenAB]
  unfolding chosenAB_eval
  by (simp add: handleItemSelect_def loadedIds_def selectedIds_def selA_def selB_def)

text \<open>
  C6 as stated fails: id 1 is staged, a reload then delivers only record 3, and the commit
  adds nothing although id 1 is staged and not chosen.
\<close>

theorem moveSelectedToChosen_skips_unloaded:
  "JStr ''1'' \<in> set (tempSelectedItems
                      (wiredData (Data [recC]) (handleItemSelect ''1'' True loadedABC))) \<and>
   JStr ''1'' \<notin> set (map id_rec (selectedItems
                      (wiredData (Data [recC]) (handleItemSelect ''1'' True loadedABC)))) \<and>
   selectedItems
     (moveSelectedToChosen (wiredData (Data [recC]) (handleItemSelect ''1'' True loadedABC)))
     = []"
  unfolding loadedABC_eval by (simp add: eval_defs)

section \<open>Reset\<close>



section \<open>Fetch failure\<close>

text \<open>
  C8: when the fetch reports a failure, the handler returns a state whose error field holds
  the failure and whose loading flag is off; it empties the grouping and changes nothing
  else, so the SelectionSet is as before and no event is sent.
\<close>

theorem wiredData_failure:
  "wiredData (Failure e) s = s\<lparr>isLoading := False, error := Some e, processedData := []\<rparr> \<and>
   error (wiredData (Failure e) s) = Some e \<and>
   selectedItems (wiredData (Failure e) s) = selectedItems s \<and>
   dispatched (wiredData (Failure e) s) = dispatched s"
  by (simp add: wiredData_def)

section \<open>Empty pre-selection\<close>

text \<open>
  C10: for every state, \<^verbatim>\<open>setSelectedRecords\<close> with a null or empty sequence only
  empties the stored pre-selection: the SelectionSet, the available groups with their
  flags, the chosen view and the event log are unchanged.
\<close>

theorem setSelectedRecords_empty_frame:
  "setSelectedRecords None s = s\<lparr>preSelectedRecords := []\<rparr> \<and>
   setSelectedRecords (Some []) s = s\<lparr>preSelectedRecords := []\<rparr> \<and>
   selectedItems (setSelectedRecords None s) = selectedItems s \<and>
   selectedItems (setSelectedRecords (Some []) s) = selectedItems s \<and>
   processedData (setSelectedRecords None s) = processedData s \<and>
   processedData (setSelectedRecords (Some []) s) = processedData s \<and>
   selectedGroupsData (setSelectedRecords None s) = selectedGroupsData s \<and>
   selectedGroupsData (setSelectedRecords (Some []) s) = selectedGroupsData s \<and>
   dispatched (setSelectedRecords None s) = dispatched s \<and>
   dispatched (setSelectedRecords (Some []) s) = dispatched s"
  by (simp add: setSelectedRecords_def restoreSelection_def Let_def)

section \<open>Grouping\<close>

lemma Map_has_keys: "Map_has m k \<longleftrightarrow> k \<in> fst ` set m"
  by (induction m) auto

lemma Map_get_None_keys: "Map_get m k = None \<longleftrightarrow> k \<notin> fst ` set m"
  by (induction m k rule: Map_get.induct) (auto simp: image_iff)

lemma Map_get_Some_mem: "Map_get m k = Some v \<Longrightarrow> (k, v) \<in> set m"
  by (induction m) (auto split: if_splits)

lemma Map_set_fresh: "k \<notin> fst ` set m \<Longrightarrow> Map_set m k v = m @ [(k, v)]"
  by (induction m) auto

lemma Map_set_keys:
  "map fst (Map_set m k v) = (if k \<in> fst ` set m then map fst m else map fst m @ [k])"
  by (induction m k v rule: Map_set.induct) (auto simp: image_iff)

lemma Map_set_twice: "Map_set (Map_set m k v) k w = Map_set m k w"
  by (induction m k v rule: Map_set.induct) auto

lemma Map_set_entries:
  "distinct (map fst m) \<Longrightarrow> k \<in> fst ` set m \<Longrightarrow>
   set (Map_set m k v) = {e \<in> set m. fst e \<noteq> k} \<union> {(k, v)}"
proof (induction m)
  case Nil
  then show ?case by simp
next
  case (Cons e m)
  show ?case
  proof (cases "fst e = k")
    case True
    with Cons.prems(1) have "\<And>e'. e' \<in> set m \<Longrightarrow> fst e' \<noteq> k"
      by (auto simp: image_iff)
    with True show ?thesis by (cases e) auto
  next
    case False
    with Cons.prems have "k \<in> fst ` set m" and "distinct (map fst m)" by auto
    with Cons.IH have "set (Map_set m k v) = {e \<in> set m. fst e \<noteq> k} \<union> {(k, v)}"
      by simp
    with False show ?thesis by (cases e) auto
  qed
qed

lemma Map_set_values:
  "Map_get m k = Some its \<Longrightarrow>
   set (concat (map snd (Map_set m k (its @ [x])))) = insert x (set (concat (map snd m)))"
proof (induction m)
  case Nil
  then show ?case by simp
next
  case (Cons e m)
  show ?case
  proof (cases "fst e = k")
    case True
    with Cons.prems have "snd e = its" by (cases e) simp
    with True show ?thesis by (cases e) auto
  next
    case False
    with Cons.prems have "Map_get m k = Some its" by (cases e) simp
    from Cons.IH[OF this] False show ?thesis by (cases e) auto
  qed
qed

lemma Map_set_values_distinct:
  "Map_get m k = Some its \<Longrightarrow> distinct (map f (concat (map snd m))) \<Longrightarrow>
   f x \<notin> f ` set (concat (map snd m)) \<Longrightarrow>
   distinct (map f (concat (map snd (Map_set m k (its @ [x])))))"
proof (induction m)
  case Nil
  then show ?case by simp
next
  case (Cons e m)
  show ?case
  proof (cases "fst e = k")
    case True
    with Cons.prems(1) have "snd e = its" by (cases e) simp
    with True Cons.prems(2,3) show ?thesis by (cases e) auto
  next
    case False
    with Cons.prems(1) have g: "Map_get m k = Some its" by (cases e) simp
    from Cons.prems(2) have d: "distinct (map f (concat (map snd m)))" by simp
    from Cons.prems(3) have n: "f x \<notin> f ` set (concat (map snd m))" by auto
    have "distinct (map f (concat (map snd (Map_set m k (its @ [x])))))"
      by (rule Cons.IH[OF g d n])
    moreover have "set (concat (map snd (Map_set m k (its @ [x]))))
                     = insert x (set (concat (map snd m)))"
      by (rule Map_set_values[OF g])
    moreover have "f ` set (snd e) \<inter> f ` insert x (set (concat (map snd m))) = {}"
      using Cons.prems(2,3) by auto
    moreover have "distinct (map f (snd e))" using Cons.prems(2) by simp
    ultimately show ?thesis using False by (cases e) simp
  qed
qed

text \<open>What one pass of the \<^verbatim>\<open>forEach\<close> body does.\<close>

lemma addRecord_dropped: "\<not> kept r \<Longrightarrow> addRecord gb pv m r = m"
  by (simp add: addRecord_def kept_def)

lemma addRecord_new:
  "kept r \<Longrightarrow> groupNameOf gb r \<notin> fst ` set m \<Longrightarrow>
   addRecord gb pv m r = m @ [(groupNameOf gb r, [itemOf pv r])]"
  by (simp add: addRecord_def kept_def itemOf_def Map_has_keys Map_get_set Map_set_twice
      Let_def) (simp add: Map_set_fresh)

lemma addRecord_old:
  "kept r \<Longrightarrow> Map_get m (groupNameOf gb r) = Some its \<Longrightarrow>
   addRecord gb pv m r = Map_set m (groupNameOf gb r) (its @ [itemOf pv r])"
proof -
  assume k: "kept r" and g: "Map_get m (groupNameOf gb r) = Some its"
  from g have "groupNameOf gb r \<in> fst ` set m"
    using Map_get_None_keys[of m "groupNameOf gb r"] by auto
  with k g show ?thesis
    by (simp add: addRecord_def kept_def itemOf_def Map_has_keys Let_def)
qed

lemma addRecord_fresh:
  "kept r \<Longrightarrow> Map_get m (groupNameOf gb r) = None \<Longrightarrow>
   addRecord gb pv m r = Map_set m (groupNameOf gb r) [itemOf pv r]"
  by (simp add: addRecord_def kept_def itemOf_def Map_has_keys Map_get_None_keys Map_get_set
      Map_set_twice Let_def)

lemma addRecord_get:
  "Map_get (addRecord gb pv m r) k =
     (if kept r \<and> k = groupNameOf gb r
      then Some ((case Map_get m k of None \<Rightarrow> [] | Some its \<Rightarrow> its) @ [itemOf pv r])
      else Map_get m k)"
proof (cases "kept r")
  case False
  then show ?thesis by (simp add: addRecord_dropped)
next
  case True
  show ?thesis
  proof (cases "Map_get m (groupNameOf gb r)")
    case None
    with True show ?thesis by (simp add: addRecord_fresh Map_get_set)
  next
    case (Some its)
    with True show ?thesis by (simp add: addRecord_old Map_get_set)
  qed
qed

lemma addRecord_keys_distinct:
  "distinct (map fst m) \<Longrightarrow> distinct (map fst (addRecord gb pv m r))"
proof (cases "kept r")
  case False
  assume "distinct (map fst m)"
  with False show ?thesis by (simp add: addRecord_dropped)
next
  case True
  assume d: "distinct (map fst m)"
  show ?thesis
  proof (cases "Map_get m (groupNameOf gb r)")
    case None
    with True d show ?thesis by (simp add: addRecord_fresh Map_set_keys)
  next
    case (Some its)
    with True d show ?thesis by (simp add: addRecord_old Map_set_keys)
  qed
qed

lemma groupMap_distinct_from:
  "distinct (map fst m) \<Longrightarrow> distinct (map fst (foldl (addRecord gb pv) m d))"
  by (induction d arbitrary: m) (simp_all add: addRecord_keys_distinct)

lemma groupMap_distinct: "distinct (map fst (foldl (addRecord gb pv) [] d))"
  by (rule groupMap_distinct_from) simp

text \<open>
  The group map after the pass over \<open>d\<close>: under each group name met, the items of the
  kept records of that group, in input order.
\<close>

lemma groupMap_get:
  "Map_get (foldl (addRecord gb pv) [] d) k =
     (if filter (\<lambda>r. kept r \<and> groupNameOf gb r = k) d = [] then None
      else Some (map (itemOf pv) (filter (\<lambda>r. kept r \<and> groupNameOf gb r = k) d)))"
  by (induction d rule: rev_induct) (auto simp: addRecord_get)

lemma Map_get_of_mem: "distinct (map fst m) \<Longrightarrow> (k, v) \<in> set m \<Longrightarrow> Map_get m k = Some v"
  by (induction m k rule: Map_get.induct) (auto simp: image_iff)

lemma groupMap_entry:
  assumes "e \<in> set (foldl (addRecord gb pv) [] d)"
  shows "snd e = map (itemOf pv) (filter (\<lambda>r. kept r \<and> groupNameOf gb r = fst e) d)"
    and "snd e \<noteq> []"
proof -
  from assms have "(fst e, snd e) \<in> set (foldl (addRecord gb pv) [] d)" by simp
  then have g: "Map_get (foldl (addRecord gb pv) [] d) (fst e) = Some (snd e)"
    using groupMap_distinct by (rule Map_get_of_mem[rotated])
  then show "snd e = map (itemOf pv) (filter (\<lambda>r. kept r \<and> groupNameOf gb r = fst e) d)"
    unfolding groupMap_get by (simp split: if_splits)
  from g show "snd e \<noteq> []"
    unfolding groupMap_get by (auto split: if_splits)
qed

lemma groupMap_has:
  assumes "r \<in> set d" and "kept r"
  shows "\<exists>e \<in> set (foldl (addRecord gb pv) [] d).
           fst e = groupNameOf gb r \<and> itemOf pv r \<in> set (snd e)"
proof -
  let ?its = "map (itemOf pv) (filter (\<lambda>x. kept x \<and> groupNameOf gb x = groupNameOf gb r) d)"
  from assms have ne: "filter (\<lambda>x. kept x \<and> groupNameOf gb x = groupNameOf gb r) d \<noteq> []"
    by (auto simp: filter_empty_conv)
  then have "Map_get (foldl (addRecord gb pv) [] d) (groupNameOf gb r) = Some ?its"
    by (simp add: groupMap_get)
  then have "(groupNameOf gb r, ?its) \<in> set (foldl (addRecord gb pv) [] d)"
    by (rule Map_get_Some_mem)
  moreover from assms have "itemOf pv r \<in> set ?its" by simp
  ultimately show ?thesis by force
qed

lemma groupMap_items:
  "set (concat (map snd (foldl (addRecord gb pv) [] d))) = itemOf pv ` set (filter kept d)"
proof (induction d rule: rev_induct)
  case Nil
  then show ?case by simp
next
  case (snoc r d)
  let ?m = "foldl (addRecord gb pv) [] d"
  show ?case
  proof (cases "kept r")
    case False
    with snoc show ?thesis by (simp add: addRecord_dropped)
  next
    case True
    show ?thesis
    proof (cases "Map_get ?m (groupNameOf gb r)")
      case None
      then show ?thesis
        using True snoc by (simp add: addRecord_new Map_get_None_keys)
    next
      case (Some its)
      have "foldl (addRecord gb pv) [] (d @ [r])
              = Map_set ?m (groupNameOf gb r) (its @ [itemOf pv r])"
        using True Some by (simp add: addRecord_old)
      then have "set (concat (map snd (foldl (addRecord gb pv) [] (d @ [r]))))
                   = insert (itemOf pv r) (set (concat (map snd ?m)))"
        by (simp only: Map_set_values[OF Some])
      with True snoc show ?thesis by auto
    qed
  qed
qed

lemma groupMap_ids_distinct:
  "uniqueIds d \<Longrightarrow> distinct (map id_item (concat (map snd (foldl (addRecord gb pv) [] d))))"
proof (induction d rule: rev_induct)
  case Nil
  then show ?case by simp
next
  case (snoc r d)
  let ?m = "foldl (addRecord gb pv) [] d"
  from snoc.prems have u: "uniqueIds d"
    by (simp add: uniqueIds_def)
  note ih = snoc.IH[OF u]
  show ?case
  proof (cases "kept r")
    case False
    with ih show ?thesis by (simp add: addRecord_dropped)
  next
    case True
    with snoc.prems have "r ''Id'' \<notin> (\<lambda>r. r ''Id'') ` set (filter kept d)"
      by (auto simp: uniqueIds_def kept_def)
    then have new: "id_item (itemOf pv r) \<notin> id_item ` set (concat (map snd ?m))"
      unfolding groupMap_items by (auto simp: itemOf_def)
    show ?thesis
    proof (cases "Map_get ?m (groupNameOf gb r)")
      case None
      then show ?thesis
        using True ih new by (simp add: addRecord_new Map_get_None_keys)
    next
      case (Some its)
      then show ?thesis
        using True ih new by (simp add: addRecord_old Map_set_values_distinct)
    qed
  qed
qed

lemma newGroup_proj:
  "map groupName (map newGroup m) = map fst m" "map items (map newGroup m) = map snd m"
  by (simp_all add: newGroup_def comp_def)

lemma wf_groups_loaded:
  "uniqueIds d \<Longrightarrow> wf_groups (map newGroup (foldl (addRecord gb pv) [] d))"
  unfolding wf_groups_def newGroup_proj
  using groupMap_distinct[of gb pv d] groupMap_ids_distinct[of d gb pv]
    groupMap_entry(2)[of _ gb pv d]
  by (simp add: list_all_iff newGroup_def)

text \<open>
  C9, as the code has it. For every record \<open>r\<close> of a load that has a (truthy) id, its item
  is in the group named after it; that name is \<^verbatim>\<open>Unassigned\<close> when a group-by field is
  configured and the record's value for it is missing, and \<^verbatim>\<open>Default Group\<close> when none is
  configured. When no display field is configured, the label is the record's name, or its
  id when the name is missing, and is never absent. The items of the grouping are exactly
  the items of the records that have an id: the others are dropped.
\<close>

theorem processQueryResults_grouping:
  assumes "r \<in> set d" and "truthy (r ''Id'')"
  shows "(\<exists>g \<in> set (processedData (processQueryResults (Some d) s)).
            groupName g = groupNameOf (groupBy s) r \<and>
            itemOf (pickValues s) r \<in> set (items g)) \<and>
         (\<forall>f. groupBy s = Some f \<and> f \<noteq> [] \<and> \<not> truthy (r f)
              \<longrightarrow> groupNameOf (groupBy s) r = JStr ''Unassigned'') \<and>
         (groupBy s = None \<or> groupBy s = Some []
              \<longrightarrow> groupNameOf (groupBy s) r = JStr ''Default Group'') \<and>
         (pickValues s = None \<or> pickValues s = Some []
              \<longrightarrow> name_item (itemOf (pickValues s) r)
                    = (if truthy (r ''Name'') then r ''Name'' else r ''Id'') \<and>
                  truthy (name_item (itemOf (pickValues s) r))) \<and>
         set (concat (map items (processedData (processQueryResults (Some d) s))))
           = itemOf (pickValues s) ` {x \<in> set d. truthy (x ''Id'')}"
proof -
  let ?m = "foldl (addRecord (groupBy s) (pickValues s)) [] d"
  have pd: "processedData (processQueryResults (Some d) s) = map newGroup ?m"
    by (simp add: processQueryResults_def)
  from assms obtain e where e: "e \<in> set ?m" "fst e = groupNameOf (groupBy s) r"
    "itemOf (pickValues s) r \<in> set (snd e)"
    using groupMap_has[of r d "groupBy s" "pickValues s"] by (auto simp: kept_def)
  have "newGroup e \<in> set (map newGroup ?m)" using e(1) by simp
  moreover have "groupName (newGroup e) = groupNameOf (groupBy s) r"
    using e(2) by (simp add: newGroup_def)
  moreover have "itemOf (pickValues s) r \<in> set (items (newGroup e))"
    using e(3) by (simp add: newGroup_def)
  ultimately have 1: "\<exists>g \<in> set (processedData (processQueryResults (Some d) s)).
            groupName g = groupNameOf (groupBy s) r \<and>
            itemOf (pickValues s) r \<in> set (items g)"
    unfolding pd by blast
  have 2: "\<forall>f. groupBy s = Some f \<and> f \<noteq> [] \<and> \<not> truthy (r f)
              \<longrightarrow> groupNameOf (groupBy s) r = JStr ''Unassigned''"
    by (simp add: groupNameOf_def js_or_def)
  have 3: "groupBy s = None \<or> groupBy s = Some []
              \<longrightarrow> groupNameOf (groupBy s) r = JStr ''Default Group''"
    by (auto simp add: groupNameOf_def)
  have 4: "pickValues s = None \<or> pickValues s = Some []
              \<longrightarrow> name_item (itemOf (pickValues s) r)
                    = (if truthy (r ''Name'') then r ''Name'' else r ''Id'') \<and>
                  truthy (name_item (itemOf (pickValues s) r))"
    using assms(2) by (auto simp add: itemOf_def displayValueOf_def js_or_def)
  have 5: "set (concat (map items (processedData (processQueryResults (Some d) s))))
           = itemOf (pickValues s) ` {x \<in> set d. truthy (x ''Id'')}"
    unfolding pd newGroup_proj groupMap_items by (auto simp: kept_def)
  from 1 2 3 4 5 show ?thesis by blast
qed

theorem processQueryResults_grouping_witness:
  "recBare \<in> set [recA, recBare] \<and> truthy (recBare ''Id'') \<and>
   \<not> truthy (recBare ''Cat'') \<and>
   (\<exists>g \<in> set (processedData
                (processQueryResults (Some [recA, recBare]) (initial (Some ''Cat'') None))).
      groupName g = JStr ''Unassigned'' \<and>
      \<lparr>name_item = JStr ''7'', id_item = JStr ''7'', isSelected = False\<rparr> \<in> set (items g))"
proof -
  have a: "recBare \<in> set [recA, recBare]" by simp
  have b: "truthy (recBare ''Id'')" by (simp add: recBare_def)
  have c: "\<not> truthy (recBare ''Cat'')" by (simp add: recBare_def)
  have g: "groupBy (initial (Some ''Cat'') None) = Some ''Cat''"
    and p: "pickValues (initial (Some ''Cat'') None) = None"
    by (simp_all add: initial_def)
  note t = processQueryResults_grouping[OF a b, of "initial (Some ''Cat'') None"]
  from t c g have n: "groupNameOf (groupBy (initial (Some ''Cat'') None)) recBare
                        = JStr ''Unassigned''"
    by simp
  have i: "itemOf (pickValues (initial (Some ''Cat'') None)) recBare
             = \<lparr>name_item = JStr ''7'', id_item = JStr ''7'', isSelected = False\<rparr>"
    by (simp add: p itemOf_def displayValueOf_def js_or_def recBare_def)
  from t have "\<exists>g \<in> set (processedData
                (processQueryResults (Some [recA, recBare]) (initial (Some ''Cat'') None))).
      groupName g = groupNameOf (groupBy (initial (Some ''Cat'') None)) recBare \<and>
      itemOf (pickValues (initial (Some ''Cat'') None)) recBare \<in> set (items g)"
    by blast
  then show ?thesis unfolding n i using a b c by blast
qed

text \<open>
  C9 as stated fails: with the display field \<^verbatim>\<open>Label\<close> configured, a record that has an id
  but no \<^verbatim>\<open>Label\<close> gets the label \<^verbatim>\<open>undefined\<close>; the fallback to name and id is not
  taken.
\<close>

theorem processQueryResults_label_absent:
  "processedData
     (processQueryResults (Some [recBare]) (initial (Some ''Cat'') (Some ''Label'')))
   = [\<lparr>groupName = JStr ''Unassigned'',
       items = [\<lparr>name_item = Undefined, id_item = JStr ''7'', isSelected = False\<rparr>],
       isExpanded = False, isAllSelected = False, toggleIcon = ArrowDown,
       itemsClass = ''items-list collapsed''\<rparr>]"
  by (simp add: eval_defs)

section \<open>Runs\<close>

lemma run_invariant:
  assumes "\<And>s x. I s \<Longrightarrow> ok s x \<Longrightarrow> I (step x s)"
  shows "I s \<Longrightarrow> admissible ok s xs \<Longrightarrow> I (run xs s)"
  using assms by (induction xs arbitrary: s) auto

section \<open>The shape of the grouping\<close>

lemma shape_names: "map groupName gs = map fst (shape gs)"
  by (simp add: shape_def comp_def)

lemma shape_ids: "map id_item (concat (map items gs)) = concat (map snd (shape gs))"
  by (simp add: shape_def comp_def map_concat)

lemma shape_nonempty: "list_all (\<lambda>g. items g \<noteq> []) gs = list_all (\<lambda>e. snd e \<noteq> []) (shape gs)"
  by (simp add: shape_def list_all_iff)

lemma shape_index:
  "groupIndex gs = concat (map (\<lambda>e. map (\<lambda>i. (i, fst e)) (snd e)) (shape gs))"
  by (simp add: groupIndex_def shape_def comp_def)

lemma wf_groups_shape: "shape gs' = shape gs \<Longrightarrow> wf_groups gs' = wf_groups gs"
  by (simp add: wf_groups_def shape_names shape_ids shape_nonempty)

lemma shape_restoreGroup: "shape (map (restoreGroup ids) gs) = shape gs"
  by (simp add: shape_def restoreGroup_def Let_def comp_def)

lemma mark_ids: "map id_item (map (\<lambda>it. if hit it then it\<lparr>isSelected := v\<rparr> else it) its)
                   = map id_item its"
  by (induction its) auto

lemma shape_markGroup: "shape (map (markGroup hit v) gs) = shape gs"
  by (simp add: shape_def markGroup_def Let_def comp_def mark_ids)

lemma shape_groupSelectLoop: "shape (snd (groupSelectLoop gn c gs sel)) = shape gs"
  by (induction gs arbitrary: sel) (simp_all add: shape_def Let_def split_beta comp_def)

lemma shape_removeGroupLoop: "shape (snd (removeGroupLoop gn gs sel)) = shape gs"
  by (induction gs arbitrary: sel) (simp_all add: shape_def Let_def split_beta comp_def)

lemma shape_reset:
  "shape (map (\<lambda>g. g\<lparr>isAllSelected := False,
                     items := map (\<lambda>it. it\<lparr>isSelected := False\<rparr>) (items g)\<rparr>) gs) = shape gs"
  by (simp add: shape_def comp_def)

lemma shape_toggle:
  "shape (map (\<lambda>g. if groupName g = k then flipExpanded g else g) gs) = shape gs"
  by (induction gs) (auto simp: shape_def flipExpanded_def Let_def)

text \<open>The fields of the state after each operation.\<close>

lemma emit_fields:
  "processedData (emitSelectionEvent s) = processedData s"
  "selectedItems (emitSelectionEvent s) = selectedItems s"
  "selectedGroupsData (emitSelectionEvent s) = selectedGroupsData s"
  "tempSelectedItems (emitSelectionEvent s) = tempSelectedItems s"
  "preSelectedRecords (emitSelectionEvent s) = preSelectedRecords s"
  by (simp_all add: emitSelectionEvent_def)

lemma update_fields:
  "processedData (updateSelectedGroupsData s) = processedData s"
  "selectedItems (updateSelectedGroupsData s) = selectedItems s"
  "tempSelectedItems (updateSelectedGroupsData s) = tempSelectedItems s"
  "preSelectedRecords (updateSelectedGroupsData s) = preSelectedRecords s"
  by (simp_all add: updateSelectedGroupsData_def)

lemma restore_fields:
  "preSelectedRecords s \<noteq> [] \<Longrightarrow>
     processedData (restoreSelection s)
       = map (restoreGroup (set (map id_rec (preSelectedRecords s)))) (processedData s)"
  "preSelectedRecords s \<noteq> [] \<Longrightarrow> selectedItems (restoreSelection s) = preSelectedRecords s"
  "preSelectedRecords s = [] \<Longrightarrow> restoreSelection s = s"
  "tempSelectedItems (restoreSelection s) = tempSelectedItems s"
  "preSelectedRecords (restoreSelection s) = preSelectedRecords s"
  by (simp_all add: restoreSelection_def update_fields selrec_copy_map Let_def)

lemma handleGroupSelect_fields:
  "processedData (handleGroupSelect g c s)
     = snd (groupSelectLoop (JStr g) c (processedData s) (selectedItems s))"
  "selectedItems (handleGroupSelect g c s)
     = fst (groupSelectLoop (JStr g) c (processedData s) (selectedItems s))"
  "tempSelectedItems (handleGroupSelect g c s) = tempSelectedItems s"
  "preSelectedRecords (handleGroupSelect g c s) = preSelectedRecords s"
  by (simp_all add: handleGroupSelect_def emit_fields update_fields split: prod.splits)

lemma removeGroup_fields:
  "processedData (removeGroup g s)
     = snd (removeGroupLoop (JStr g) (processedData s) (selectedItems s))"
  "selectedItems (removeGroup g s)
     = fst (removeGroupLoop (JStr g) (processedData s) (selectedItems s))"
  "tempSelectedItems (removeGroup g s) = tempSelectedItems s"
  "preSelectedRecords (removeGroup g s) = preSelectedRecords s"
  by (simp_all add: removeGroup_def emit_fields update_fields split: prod.splits)

lemma step_shape:
  assumes "\<And>d. x \<noteq> WiredData (Data d)" and "\<And>e. x \<noteq> WiredData (Failure e)"
  shows "shape (processedData (step x s)) = shape (processedData s)"
proof (cases x)
  case (WiredData w)
  with assms have "w = Pending" by (cases w) auto
  with WiredData show ?thesis by (simp add: wiredData_def)
next
  case (Set_selectedRecords v)
  then show ?thesis
    by (cases "listOf v = []")
       (simp_all add: set_selectedRecords_def listOf_def restore_fields shape_restoreGroup
          Let_def)
next
  case (SetSelectedRecords v)
  then show ?thesis
    by (cases "listOf v = []")
       (simp_all add: setSelectedRecords_def listOf_def restore_fields shape_restoreGroup
          Let_def)
next
  case ResetSelections
  then show ?thesis by (simp add: resetSelections_def emit_fields shape_reset)
next
  case (ToggleGroup g)
  then show ?thesis by (simp add: toggleGroup_def shape_toggle)
next
  case (ToggleSelectedGroup g)
  then show ?thesis by (simp add: toggleSelectedGroup_def)
next
  case (HandleGroupSelect g c)
  then show ?thesis by (simp add: handleGroupSelect_fields shape_groupSelectLoop)
next
  case (HandleItemSelect i c)
  then show ?thesis by (simp add: handleItemSelect_def)
next
  case MoveSelectedToChosen
  then show ?thesis
    by (simp add: moveSelectedToChosen_def emit_fields update_fields shape_markGroup Let_def)
next
  case MoveChosenToAvailable
  then show ?thesis
    by (simp add: moveChosenToAvailable_def emit_fields update_fields shape_markGroup Let_def)
next
  case (SelectChosenItem i)
  then show ?thesis by (simp add: selectChosenItem_def)
next
  case (RemoveItem i)
  then show ?thesis
    by (simp add: removeItem_def emit_fields update_fields shape_markGroup)
next
  case (RemoveGroup g)
  then show ?thesis by (simp add: removeGroup_fields shape_removeGroupLoop)
qed

lemma wiredData_Data_fields:
  "processedData (wiredData (Data d) s) =
     (if preSelectedRecords s = []
      then map newGroup (foldl (addRecord (groupBy s) (pickValues s)) [] d)
      else map (restoreGroup (set (map id_rec (preSelectedRecords s))))
             (map newGroup (foldl (addRecord (groupBy s) (pickValues s)) [] d)))"
  "selectedItems (wiredData (Data d) s) =
     (if preSelectedRecords s = [] then selectedItems s else preSelectedRecords s)"
  "tempSelectedItems (wiredData (Data d) s) = tempSelectedItems s"
  "preSelectedRecords (wiredData (Data d) s) = preSelectedRecords s"
  by (simp_all add: wiredData_def processQueryResults_def restore_fields Let_def)

lemma wf_restoreGroup: "wf_groups (map (restoreGroup ids) gs) = wf_groups gs"
  by (rule wf_groups_shape[OF shape_restoreGroup])

lemma names_restoreGroup: "map groupName (map (restoreGroup ids) gs) = map groupName gs"
  by (simp add: restoreGroup_def Let_def comp_def)

lemma wiredData_wf:
  assumes "uniqueIds d"
  shows "wf_groups (processedData (wiredData (Data d) s))"
proof -
  have w: "wf_groups (map newGroup (foldl (addRecord (groupBy s) (pickValues s)) [] d))"
    using assms by (rule wf_groups_loaded)
  show ?thesis
  proof (cases "preSelectedRecords s = []")
    case True
    then show ?thesis using w by (simp add: wiredData_Data_fields)
  next
    case False
    then show ?thesis using w by (simp only: wiredData_Data_fields if_False wf_restoreGroup)
  qed
qed

lemma wiredData_names: "distinct (map groupName (processedData (wiredData (Data d) s)))"
proof -
  have w: "distinct (map groupName
             (map newGroup (foldl (addRecord (groupBy s) (pickValues s)) [] d)))"
    using groupMap_distinct[of "groupBy s" "pickValues s" d] by (simp only: newGroup_proj)
  show ?thesis
  proof (cases "preSelectedRecords s = []")
    case True
    then show ?thesis using w by (simp add: wiredData_Data_fields)
  next
    case False
    then show ?thesis
      using w by (simp only: wiredData_Data_fields if_False names_restoreGroup)
  qed
qed

lemma step_wf:
  assumes "wf_groups (processedData s)" and "\<And>d. x = WiredData (Data d) \<Longrightarrow> uniqueIds d"
  shows "wf_groups (processedData (step x s))"
proof (cases "\<exists>d. x = WiredData (Data d)")
  case True
  then obtain d where x: "x = WiredData (Data d)" by blast
  then have "uniqueIds d" by (rule assms(2))
  then show ?thesis unfolding x by (simp add: wiredData_wf)
next
  case False
  show ?thesis
  proof (cases "\<exists>e. x = WiredData (Failure e)")
    case True
    then show ?thesis by (auto simp: wiredData_def wf_groups_def)
  next
    case no: False
    from False no have sh: "shape (processedData (step x s)) = shape (processedData s)"
      by (intro step_shape) auto
    show ?thesis using assms(1) by (simp only: wf_groups_shape[OF sh])
  qed
qed

lemma step_names:
  assumes "distinct (map groupName (processedData s))"
  shows "distinct (map groupName (processedData (step x s)))"
proof (cases "\<exists>d. x = WiredData (Data d)")
  case True
  then obtain d where x: "x = WiredData (Data d)" by blast
  show ?thesis unfolding x by (simp add: wiredData_names)
next
  case False
  show ?thesis
  proof (cases "\<exists>e. x = WiredData (Failure e)")
    case True
    then show ?thesis by (auto simp: wiredData_def)
  next
    case no: False
    from False no have "shape (processedData (step x s)) = shape (processedData s)"
      by (intro step_shape) auto
    with assms show ?thesis by (simp add: shape_names)
  qed
qed

section \<open>The chosen view\<close>

lemma isChosen_iff: "isChosen sel it \<longleftrightarrow> id_item it \<in> set (map id_rec sel)"
  by (force simp: isChosen_def list_ex_iff image_iff)

lemma addChosenGroup_eq:
  "addChosenGroup sel m g =
     (if filter (isChosen sel) (items g) = [] then m
      else Map_set m (groupName g) (chosenEntry sel g))"
  by (simp add: addChosenGroup_def chosenEntry_def Let_def)

text \<open>
  With distinct group names every \<^verbatim>\<open>groupsMap.set\<close> adds a new key, so the chosen view
  lists, in the order of the available groups, the groups that have a chosen item.
\<close>

lemma chosen_fold:
  "distinct (map fst m @ map groupName gs) \<Longrightarrow>
   foldl (addChosenGroup sel) m gs =
     m @ map (\<lambda>g. (groupName g, chosenEntry sel g))
           (filter (\<lambda>g. filter (isChosen sel) (items g) \<noteq> []) gs)"
proof (induction gs arbitrary: m)
  case Nil
  then show ?case by simp
next
  case (Cons g gs)
  show ?case
  proof (cases "filter (isChosen sel) (items g) = []")
    case True
    from Cons.prems have "distinct (map fst m @ map groupName gs)" by auto
    from Cons.IH[OF this] True show ?thesis by (simp add: addChosenGroup_eq)
  next
    case False
    from Cons.prems have fresh: "groupName g \<notin> fst ` set m" by auto
    from Cons.prems
    have "distinct (map fst (m @ [(groupName g, chosenEntry sel g)]) @ map groupName gs)"
      by auto
    from Cons.IH[OF this] False fresh show ?thesis
      by (simp add: addChosenGroup_eq Map_set_fresh)
  qed
qed

lemma update_view:
  "distinct (map groupName (processedData s)) \<Longrightarrow>
   selectedGroupsData (updateSelectedGroupsData s) =
     map (chosenEntry (selectedItems s))
       (filter (\<lambda>g. filter (isChosen (selectedItems s)) (items g) \<noteq> []) (processedData s))"
  using chosen_fold[of "[]" "processedData s" "selectedItems s"]
  by (simp add: updateSelectedGroupsData_def comp_def)

lemma chosenPairs_view:
  "set (chosenPairs (map (chosenEntry sel)
          (filter (\<lambda>g. filter (isChosen sel) (items g) \<noteq> []) gs)))
   = set (filter (\<lambda>p. fst p \<in> set (map id_rec sel)) (groupIndex gs))"
proof -
  have "set (chosenPairs (map (chosenEntry sel)
          (filter (\<lambda>g. filter (isChosen sel) (items g) \<noteq> []) gs)))
        = {(id_item it, groupName g) | g it.
             g \<in> set gs \<and> it \<in> set (items g) \<and> isChosen sel it}"
    by (auto simp: chosenPairs_def chosenEntry_def toRec_def filter_empty_conv)
  also have "\<dots> = set (filter (\<lambda>p. fst p \<in> set (map id_rec sel)) (groupIndex gs))"
    by (force simp: groupIndex_def isChosen_iff image_iff)
  finally show ?thesis .
qed

lemma update_chosen_inv:
  assumes "distinct (map groupName (processedData s))"
  shows "chosen_inv (updateSelectedGroupsData s)"
proof -
  let ?P = "\<lambda>g. filter (isChosen (selectedItems s)) (items g) \<noteq> []"
  have v: "selectedGroupsData (updateSelectedGroupsData s)
             = map (chosenEntry (selectedItems s)) (filter ?P (processedData s))"
    using assms by (rule update_view)
  have 1: "set (chosenPairs (selectedGroupsData (updateSelectedGroupsData s))) =
        set (filter (\<lambda>p. fst p \<in> selectedIds (updateSelectedGroupsData s))
               (groupIndex (processedData (updateSelectedGroupsData s))))"
    unfolding v by (simp only: chosenPairs_view selectedIds_def update_fields)
  have 2: "list_all (\<lambda>c. items_c c \<noteq> []) (selectedGroupsData (updateSelectedGroupsData s))"
    unfolding v by (simp add: list_all_iff chosenEntry_def)
  have "map groupName_c (map (chosenEntry (selectedItems s)) (filter ?P (processedData s)))
          = map groupName (filter ?P (processedData s))"
    by (simp add: chosenEntry_def)
  then have 3: "distinct (map groupName_c (selectedGroupsData (updateSelectedGroupsData s)))"
    unfolding v using assms by (simp only: distinct_map_filter)
  from 1 2 3 show ?thesis unfolding chosen_inv_def by blast
qed

lemma chosen_inv_emit: "chosen_inv (emitSelectionEvent s) = chosen_inv s"
  by (simp add: chosen_inv_def selectedIds_def emit_fields)

lemma chosen_inv_cong:
  "selectedGroupsData s' = selectedGroupsData s \<Longrightarrow> selectedItems s' = selectedItems s \<Longrightarrow>
   shape (processedData s') = shape (processedData s) \<Longrightarrow> chosen_inv s' = chosen_inv s"
  by (simp add: chosen_inv_def selectedIds_def shape_index)

lemma chosenPairs_empty:
  "list_all (\<lambda>c. items_c c \<noteq> []) cs \<Longrightarrow> set (chosenPairs cs) = {} \<Longrightarrow> cs = []"
  by (cases cs) (auto simp: chosenPairs_def)

lemma chosen_inv_empty: "selectedItems s = [] \<Longrightarrow> chosen_inv s = (selectedGroupsData s = [])"
proof
  assume e: "selectedItems s = []" and c: "chosen_inv s"
  from c e have "set (chosenPairs (selectedGroupsData s)) = {}"
    and "list_all (\<lambda>c. items_c c \<noteq> []) (selectedGroupsData s)"
    by (simp_all add: chosen_inv_def selectedIds_def)
  then show "selectedGroupsData s = []" using chosenPairs_empty by blast
next
  assume "selectedItems s = []" and "selectedGroupsData s = []"
  then show "chosen_inv s"
    by (simp add: chosen_inv_def selectedIds_def chosenPairs_def)
qed

lemma restore_chosen_inv:
  assumes "preSelectedRecords s \<noteq> []" and "distinct (map groupName (processedData s))"
  shows "chosen_inv (restoreSelection s)"
proof -
  let ?t = "s\<lparr>selectedItems :=
                 map (\<lambda>r. \<lparr>name_rec = name_rec r, id_rec = id_rec r\<rparr>) (preSelectedRecords s),
               processedData :=
                 map (restoreGroup (set (map id_rec (preSelectedRecords s)))) (processedData s)\<rparr>"
  have r: "restoreSelection s = updateSelectedGroupsData ?t"
    using assms(1) by (simp add: restoreSelection_def Let_def)
  have "distinct (map groupName (processedData ?t))"
    using assms(2) by (simp add: names_restoreGroup del: map_map)
  then show ?thesis unfolding r by (rule update_chosen_inv)
qed

lemma loop_names:
  "map groupName (snd (groupSelectLoop gn c gs sel)) = map groupName gs"
  "map groupName (snd (removeGroupLoop gn gs sel)) = map groupName gs"
  using shape_groupSelectLoop[of gn c gs sel] shape_removeGroupLoop[of gn gs sel]
  by (simp_all add: shape_names)

lemma mark_names: "map groupName (map (markGroup hit v) gs) = map groupName gs"
  by (simp add: markGroup_def Let_def comp_def)

lemma toggled_view:
  "chosenPairs (map (\<lambda>g. if groupName_c g = k then flipExpanded_c g else g) cs) = chosenPairs cs"
  "map items_c (map (\<lambda>g. if groupName_c g = k then flipExpanded_c g else g) cs) = map items_c cs"
  "map groupName_c (map (\<lambda>g. if groupName_c g = k then flipExpanded_c g else g) cs)
     = map groupName_c cs"
  by (induction cs) (auto simp: chosenPairs_def flipExpanded_c_def Let_def)

lemma nonempty_items_c:
  "list_all (\<lambda>c. items_c c \<noteq> []) cs = list_all (\<lambda>its. its \<noteq> []) (map items_c cs)"
  by (simp add: list_all_iff)

lemma step_chosen_inv:
  assumes v: "view_inv s" and ok: "load_unchosen s x"
  shows "chosen_inv (step x s)"
proof -
  from v have names: "distinct (map groupName (processedData s))" and c: "chosen_inv s"
    by (simp_all add: view_inv_def)
  show ?thesis
  proof (cases x)
    case (WiredData w)
    show ?thesis
    proof (cases w)
      case (Data d)
      show ?thesis
      proof (cases "preSelectedRecords s = []")
        case True
        with ok WiredData Data have e: "selectedItems s = []" by simp
        with c have "selectedGroupsData s = []" by (simp add: chosen_inv_empty)
        with True e have "selectedGroupsData (wiredData (Data d) s) = []"
          and "selectedItems (wiredData (Data d) s) = []"
          by (simp_all add: wiredData_def processQueryResults_def Let_def)
        then show ?thesis unfolding WiredData Data by (simp add: chosen_inv_empty)
      next
        case False
        let ?s1 = "processQueryResults (Some d) (s\<lparr>isLoading := False, error := None\<rparr>)"
        have w: "wiredData (Data d) s = restoreSelection ?s1"
          using False by (simp add: wiredData_def processQueryResults_def Let_def)
        have p: "preSelectedRecords ?s1 \<noteq> []"
          using False by (simp add: processQueryResults_def)
        have "processedData ?s1
                = map newGroup (foldl (addRecord (groupBy s) (pickValues s)) [] d)"
          by (simp add: processQueryResults_def)
        then have n: "distinct (map groupName (processedData ?s1))"
          using groupMap_distinct[of "groupBy s" "pickValues s" d]
          by (simp only: newGroup_proj)
        show ?thesis unfolding WiredData Data step.simps w
          using p n by (rule restore_chosen_inv)
      qed
    next
      case (Failure e)
      with ok WiredData have e: "selectedItems s = []" by simp
      with c have "selectedGroupsData s = []" by (simp add: chosen_inv_empty)
      with e show ?thesis
        unfolding WiredData Failure by (simp add: chosen_inv_empty wiredData_def)
    next
      case Pending
      have "chosen_inv (wiredData Pending s) = chosen_inv s"
        by (rule chosen_inv_cong) (simp_all add: wiredData_def)
      with c show ?thesis unfolding WiredData Pending by simp
    qed
  next
    case (Set_selectedRecords v)
    let ?s1 = "s\<lparr>preSelectedRecords := listOf v\<rparr>"
    show ?thesis
    proof (cases "processedData s \<noteq> [] \<and> listOf v \<noteq> []")
      case True
      then have "set_selectedRecords v s = restoreSelection ?s1"
        by (simp add: set_selectedRecords_def listOf_def Let_def)
      moreover have "chosen_inv (restoreSelection ?s1)"
        using True names by (intro restore_chosen_inv) simp_all
      ultimately show ?thesis unfolding Set_selectedRecords by simp
    next
      case False
      then have "set_selectedRecords v s = ?s1"
        by (auto simp add: set_selectedRecords_def listOf_def Let_def)
      moreover have "chosen_inv ?s1 = chosen_inv s"
        by (rule chosen_inv_cong) simp_all
      ultimately show ?thesis unfolding Set_selectedRecords using c by simp
    qed
  next
    case (SetSelectedRecords v)
    let ?s1 = "s\<lparr>preSelectedRecords := listOf v\<rparr>"
    show ?thesis
    proof (cases "processedData s \<noteq> [] \<and> listOf v \<noteq> []")
      case True
      then have "setSelectedRecords v s = restoreSelection ?s1"
        by (simp add: setSelectedRecords_def listOf_def Let_def)
      moreover have "chosen_inv (restoreSelection ?s1)"
        using True names by (intro restore_chosen_inv) simp_all
      ultimately show ?thesis unfolding SetSelectedRecords by simp
    next
      case False
      then have "setSelectedRecords v s = ?s1"
        by (auto simp add: setSelectedRecords_def listOf_def Let_def restore_fields)
      moreover have "chosen_inv ?s1 = chosen_inv s"
        by (rule chosen_inv_cong) simp_all
      ultimately show ?thesis unfolding SetSelectedRecords using c by simp
    qed
  next
    case ResetSelections
    show ?thesis unfolding ResetSelections
      by (simp add: chosen_inv_empty resetSelections_def emitSelectionEvent_def)
  next
    case (ToggleGroup g)
    have "chosen_inv (toggleGroup g s) = chosen_inv s"
      by (rule chosen_inv_cong) (simp_all add: toggleGroup_def shape_toggle)
    with c show ?thesis unfolding ToggleGroup by simp
  next
    case (ToggleSelectedGroup g)
    from c show ?thesis unfolding ToggleSelectedGroup
      by (simp add: chosen_inv_def toggleSelectedGroup_def selectedIds_def toggled_view
          nonempty_items_c del: map_map)
  next
    case (HandleGroupSelect g ch)
    let ?L = "groupSelectLoop (JStr g) ch (processedData s) (selectedItems s)"
    have "handleGroupSelect g ch s =
            emitSelectionEvent
              (updateSelectedGroupsData (s\<lparr>selectedItems := fst ?L, processedData := snd ?L\<rparr>))"
      by (simp add: handleGroupSelect_def split_beta)
    moreover have "distinct (map groupName
                     (processedData (s\<lparr>selectedItems := fst ?L, processedData := snd ?L\<rparr>)))"
      using names by (simp add: loop_names)
    ultimately show ?thesis unfolding HandleGroupSelect
      by (simp only: step.simps chosen_inv_emit update_chosen_inv)
  next
    case (HandleItemSelect i ch)
    have "chosen_inv (handleItemSelect i ch s) = chosen_inv s"
      by (rule chosen_inv_cong) (simp_all add: handleItemSelect_def)
    with c show ?thesis unfolding HandleItemSelect by simp
  next
    case MoveSelectedToChosen
    show ?thesis
    proof (cases "tempSelectedItems s = []")
      case True
      with c show ?thesis unfolding MoveSelectedToChosen
        by (simp add: moveSelectedToChosen_def)
    next
      case False
      then obtain t where
        "moveSelectedToChosen s = emitSelectionEvent (updateSelectedGroupsData t)"
        and "processedData t
               = map (markGroup (\<lambda>it. id_item it \<in> set (tempSelectedItems s)) True)
                   (processedData s)"
        by (simp add: moveSelectedToChosen_def Let_def)
      moreover from this names have "distinct (map groupName (processedData t))"
        by (simp only: mark_names)
      ultimately show ?thesis unfolding MoveSelectedToChosen
        by (simp only: step.simps chosen_inv_emit update_chosen_inv)
    qed
  next
    case MoveChosenToAvailable
    show ?thesis
    proof (cases "tempChosenItems s = []")
      case True
      with c show ?thesis unfolding MoveChosenToAvailable
        by (simp add: moveChosenToAvailable_def)
    next
      case False
      then obtain t where
        "moveChosenToAvailable s = emitSelectionEvent (updateSelectedGroupsData t)"
        and "processedData t
               = map (markGroup (\<lambda>it. id_item it \<in> set (tempChosenItems s)) False)
                   (processedData s)"
        by (simp add: moveChosenToAvailable_def Let_def)
      moreover from this names have "distinct (map groupName (processedData t))"
        by (simp only: mark_names)
      ultimately show ?thesis unfolding MoveChosenToAvailable
        by (simp only: step.simps chosen_inv_emit update_chosen_inv)
    qed
  next
    case (SelectChosenItem i)
    have "chosen_inv (selectChosenItem i s) = chosen_inv s"
      by (rule chosen_inv_cong) (simp_all add: selectChosenItem_def)
    with c show ?thesis unfolding SelectChosenItem by simp
  next
    case (RemoveItem i)
    obtain t where
      "removeItem i s = emitSelectionEvent (updateSelectedGroupsData t)"
      and "processedData t
             = map (markGroup (\<lambda>it. id_item it = JStr i) False) (processedData s)"
      by (simp add: removeItem_def)
    moreover from this names have "distinct (map groupName (processedData t))"
      by (simp only: mark_names)
    ultimately show ?thesis unfolding RemoveItem
      by (simp only: step.simps chosen_inv_emit update_chosen_inv)
  next
    case (RemoveGroup g)
    let ?L = "removeGroupLoop (JStr g) (processedData s) (selectedItems s)"
    have "removeGroup g s =
            emitSelectionEvent
              (updateSelectedGroupsData (s\<lparr>selectedItems := fst ?L, processedData := snd ?L\<rparr>))"
      by (simp add: removeGroup_def split_beta)
    moreover have "distinct (map groupName
                     (processedData (s\<lparr>selectedItems := fst ?L, processedData := snd ?L\<rparr>)))"
      using names by (simp add: loop_names)
    ultimately show ?thesis unfolding RemoveGroup
      by (simp only: step.simps chosen_inv_emit update_chosen_inv)
  qed
qed

lemma step_view_inv: "view_inv s \<Longrightarrow> load_unchosen s x \<Longrightarrow> view_inv (step x s)"
  using step_chosen_inv[of s x] step_names[of s x] by (simp add: view_inv_def)

lemma initial_view_inv: "view_inv (initial gb pv)"
  by (simp add: view_inv_def chosen_inv_def initial_def chosenPairs_def groupIndex_def)


text \<open>
  C3, as the code has it. Along every run from the initial state in which each data load
  without pending pre-selected records, and each fetch failure, arrives while nothing is
  chosen, the chosen view is the SelectionSet partitioned by group, restricted to the ids
  with a loaded group, without empty entries. (A load or failure that arrives while ids are
  chosen does not recompute the chosen view; see the counterexample.)
\<close>

theorem chosen_view_partition:
  assumes "admissible load_unchosen (initial gb pv) xs"
  shows "chosen_inv (run xs (initial gb pv))"
proof -
  have "view_inv (run xs (initial gb pv))"
    using step_view_inv initial_view_inv assms
    by (rule run_invariant[where I = view_inv and ok = load_unchosen])
  then show ?thesis by (simp add: view_inv_def)
qed

theorem chosen_view_partition_witness:
  "admissible load_unchosen (initial (Some ''Cat'') None)
     [WiredData (Data [recA, recB, recC]), HandleItemSelect ''1'' True,
      HandleItemSelect ''2'' True, MoveSelectedToChosen, RemoveItem ''1''] \<and>
   chosen_inv
     (run [WiredData (Data [recA, recB, recC]), HandleItemSelect ''1'' True,
           HandleItemSelect ''2'' True, MoveSelectedToChosen, RemoveItem ''1'']
        (initial (Some ''Cat'') None))"
proof -
  have a: "admissible load_unchosen (initial (Some ''Cat'') None)
     [WiredData (Data [recA, recB, recC]), HandleItemSelect ''1'' True,
      HandleItemSelect ''2'' True, MoveSelectedToChosen, RemoveItem ''1'']"
    by (simp add: initial_def)
  from chosen_view_partition[OF a] a show ?thesis by simp
qed

text \<open>
  C3 as stated fails on the fetch-failure path: with ids 1 and 2 chosen, a failure empties
  the grouping but the chosen view still lists group X with both ids.
\<close>

theorem chosen_view_stale_after_failure:
  "\<not> chosen_inv (wiredData (Failure ''boom'') chosenAB)"
  unfolding chosenAB_eval
  by (simp add: chosen_inv_def wiredData_def chosenPairs_def groupIndex_def selectedIds_def
      selA_def selB_def)

section \<open>The rollup flags\<close>

lemma group_ok_cong:
  "(\<And>it. it \<in> set (items g) \<Longrightarrow> (id_item it \<in> ids') = (id_item it \<in> ids)) \<Longrightarrow>
   group_ok ids' g = group_ok ids g"
  by (simp add: group_ok_def list_all_iff)

lemma group_ok_flip: "group_ok ids (flipExpanded g) = group_ok ids g"
  by (simp add: group_ok_def flipExpanded_def Let_def)

lemma restoreGroup_ok: "group_ok ids (restoreGroup ids g)"
  by (simp add: group_ok_def restoreGroup_def Let_def list_all_iff)

lemma markGroup_ok:
  assumes ne: "items g \<noteq> []" and ok: "group_ok ids g"
    and m: "\<And>it. it \<in> set (items g) \<Longrightarrow>
           (id_item it \<in> ids') = (if hit it then v else id_item it \<in> ids)"
  shows "group_ok ids' (markGroup hit v g)"
proof -
  define f where "f = (\<lambda>it. if hit it then it\<lparr>isSelected := v\<rparr> else it)"
  have old: "isSelected it = (id_item it \<in> ids)" if "it \<in> set (items g)" for it
    using ok that by (simp add: group_ok_def list_all_iff)
  have new: "isSelected (f it) = (id_item (f it) \<in> ids')" if "it \<in> set (items g)" for it
    using old[OF that] m[OF that] unfolding f_def by (cases "hit it") simp_all
  have 1: "list_all (\<lambda>it. isSelected it = (id_item it \<in> ids')) (map f (items g))"
    unfolding list_all_iff using new by auto
  have 2: "list_all isSelected (map f (items g))
             = list_all (\<lambda>it. id_item it \<in> ids') (map f (items g))"
    unfolding list_all_iff using new by auto
  have 3: "map f (items g) \<noteq> []" using ne by simp
  have "items (markGroup hit v g) = map f (items g)"
    and "isAllSelected (markGroup hit v g) = list_all isSelected (map f (items g))"
    by (simp_all add: markGroup_def Let_def f_def)
  with 1 2 3 show ?thesis unfolding group_ok_def by simp
qed

lemma setAll_ok:
  assumes ne: "items g \<noteq> []"
    and m: "\<And>it. it \<in> set (items g) \<Longrightarrow> (id_item it \<in> ids') = c"
  shows "group_ok ids' (g\<lparr>items := map (\<lambda>it. it\<lparr>isSelected := c\<rparr>) (items g),
                          isAllSelected := c\<rparr>)"
proof -
  let ?u = "map (\<lambda>it. it\<lparr>isSelected := c\<rparr>) (items g)"
  have 1: "list_all (\<lambda>it. isSelected it = (id_item it \<in> ids')) ?u"
    unfolding list_all_iff using m by auto
  from ne obtain a where a: "a \<in> set (items g)" by (cases "items g") auto
  have 2: "list_all (\<lambda>it. id_item it \<in> ids') ?u = c"
  proof (cases c)
    case True
    then show ?thesis unfolding list_all_iff using m by auto
  next
    case False
    with m[OF a] a show ?thesis unfolding list_all_iff by auto
  qed
  have 3: "?u \<noteq> []" using ne by simp
  from 1 2 3 show ?thesis unfolding group_ok_def by simp
qed

lemma newGroup_ok:
  assumes ne: "snd e \<noteq> []"
    and m: "\<And>it. it \<in> set (snd e) \<Longrightarrow> \<not> isSelected it \<and> id_item it \<notin> ids"
  shows "group_ok ids (newGroup e)"
proof -
  have 1: "list_all (\<lambda>it. isSelected it = (id_item it \<in> ids)) (snd e)"
    unfolding list_all_iff using m by auto
  from ne obtain a where a: "a \<in> set (snd e)" by (cases "snd e") auto
  with m[OF a] have 2: "\<not> list_all (\<lambda>it. id_item it \<in> ids) (snd e)"
    unfolding list_all_iff by auto
  from 1 2 show ?thesis unfolding group_ok_def by (simp add: newGroup_def)
qed

lemma reset_ok:
  "group_ok {} (g\<lparr>isAllSelected := False,
                  items := map (\<lambda>it. it\<lparr>isSelected := False\<rparr>) (items g)\<rparr>)"
proof (cases "items g")
  case Nil
  then show ?thesis by (simp add: group_ok_def)
next
  case (Cons a as)
  then show ?thesis by (simp add: group_ok_def list_all_iff) blast
qed

text \<open>Ids are unique across groups, so groups with different names share no id.\<close>

lemma disjoint_groups:
  "distinct (map id_item (concat (map items gs))) \<Longrightarrow> g \<in> set gs \<Longrightarrow> h \<in> set gs \<Longrightarrow>
   groupName g \<noteq> groupName h \<Longrightarrow> it \<in> set (items h) \<Longrightarrow>
   id_item it \<notin> id_item ` set (items g)"
proof (induction gs)
  case Nil
  then show ?case by simp
next
  case (Cons a gs)
  from Cons.prems(1) have d: "distinct (map id_item (concat (map items gs)))"
    and x: "id_item ` set (items a) \<inter> id_item ` set (concat (map items gs)) = {}"
    by auto
  show ?case
  proof (cases "g = a")
    case True
    with Cons.prems have "h \<in> set gs" by auto
    with Cons.prems(5) have "id_item it \<in> id_item ` set (concat (map items gs))" by auto
    with x True show ?thesis by auto
  next
    case False
    with Cons.prems have g: "g \<in> set gs" by auto
    show ?thesis
    proof (cases "h = a")
      case True
      show ?thesis
      proof
        assume "id_item it \<in> id_item ` set (items g)"
        with g have "id_item it \<in> id_item ` set (concat (map items gs))" by auto
        moreover from True Cons.prems(5) have "id_item it \<in> id_item ` set (items a)" by auto
        ultimately show False using x by auto
      qed
    next
      case False
      with Cons.prems have "h \<in> set gs" by auto
      from Cons.IH[OF d g this Cons.prems(4,5)] show ?thesis .
    qed
  qed
qed

text \<open>
  The loops of \<^verbatim>\<open>handleGroupSelect\<close> and \<^verbatim>\<open>removeGroup\<close> in closed form, for
  distinct group names: at most one group matches.
\<close>

lemma unselected_ignores_flag:
  "map toRec (filter (\<lambda>it. \<not> isChosen sel it) (map (\<lambda>it. it\<lparr>isSelected := c\<rparr>) its))
     = map toRec (filter (\<lambda>it. \<not> isChosen sel it) its)"
  by (induction its) (auto simp: toRec_def isChosen_def)

lemma groupSelectLoop_nomatch:
  "gn \<notin> groupName ` set gs \<Longrightarrow> groupSelectLoop gn c gs sel = (sel, gs)"
  by (induction gs arbitrary: sel) auto

lemma removeGroupLoop_nomatch:
  "gn \<notin> groupName ` set gs \<Longrightarrow> removeGroupLoop gn gs sel = (sel, gs)"
  by (induction gs arbitrary: sel) auto

lemma groupSelectLoop_match:
  "distinct (map groupName gs) \<Longrightarrow> g \<in> set gs \<Longrightarrow> groupName g = gn \<Longrightarrow>
   groupSelectLoop gn c gs sel =
     ((if c then sel @ map toRec (filter (\<lambda>it. \<not> isChosen sel it) (items g))
       else filter (\<lambda>si. id_rec si \<notin> id_item ` set (items g)) sel),
      map (\<lambda>h. if groupName h = gn
                then h\<lparr>items := map (\<lambda>it. it\<lparr>isSelected := c\<rparr>) (items h), isAllSelected := c\<rparr>
                else h) gs)"
proof (induction gs arbitrary: sel)
  case Nil
  then show ?case by simp
next
  case (Cons a gs)
  show ?case
  proof (cases "groupName a = gn")
    case True
    with Cons.prems have ga: "g = a" by (auto simp: image_iff)
    from True Cons.prems(1) have no: "gn \<notin> groupName ` set gs" by auto
    then have "map (\<lambda>h. if groupName h = gn
                then h\<lparr>items := map (\<lambda>it. it\<lparr>isSelected := c\<rparr>) (items h), isAllSelected := c\<rparr>
                else h) gs = gs"
      by (intro map_idI) auto
    with True ga no show ?thesis
      by (simp add: groupSelectLoop_nomatch unselected_ignores_flag Let_def comp_def)
  next
    case False
    with Cons.prems have "g \<in> set gs" and "distinct (map groupName gs)" by auto
    from Cons.IH[OF this(2) this(1) Cons.prems(3)] False show ?thesis by simp
  qed
qed

lemma removeGroupLoop_match:
  "distinct (map groupName gs) \<Longrightarrow> g \<in> set gs \<Longrightarrow> groupName g = gn \<Longrightarrow>
   removeGroupLoop gn gs sel =
     (filter (\<lambda>si. id_rec si \<notin> id_item ` set (items g)) sel,
      map (\<lambda>h. if groupName h = gn
                then h\<lparr>items := map (\<lambda>it. it\<lparr>isSelected := False\<rparr>) (items h),
                       isAllSelected := False\<rparr>
                else h) gs)"
proof (induction gs arbitrary: sel)
  case Nil
  then show ?case by simp
next
  case (Cons a gs)
  show ?case
  proof (cases "groupName a = gn")
    case True
    with Cons.prems have ga: "g = a" by (auto simp: image_iff)
    from True Cons.prems(1) have no: "gn \<notin> groupName ` set gs" by auto
    then have "map (\<lambda>h. if groupName h = gn
                then h\<lparr>items := map (\<lambda>it. it\<lparr>isSelected := False\<rparr>) (items h),
                       isAllSelected := False\<rparr>
                else h) gs = gs"
      by (intro map_idI) auto
    with True ga no show ?thesis
      by (simp add: removeGroupLoop_nomatch Let_def comp_def)
  next
    case False
    with Cons.prems have "g \<in> set gs" and "distinct (map groupName gs)" by auto
    from Cons.IH[OF this(2) this(1) Cons.prems(3)] False show ?thesis by simp
  qed
qed

lemma same_name_same_group:
  "distinct (map groupName gs) \<Longrightarrow> g \<in> set gs \<Longrightarrow> h \<in> set gs \<Longrightarrow>
   groupName h = groupName g \<Longrightarrow> h = g"
  by (induction gs) (auto simp: image_iff)

text \<open>Selecting or clearing a whole group keeps every group in agreement.\<close>

lemma setAll_groups_ok:
  assumes wf: "wf_groups gs" and ok: "list_all (group_ok ids) gs"
    and g: "g \<in> set gs"
    and ids': "\<And>i. (i \<in> ids') = (if i \<in> id_item ` set (items g) then c else i \<in> ids)"
  shows "list_all (group_ok ids')
           (map (\<lambda>h. if groupName h = groupName g
                      then h\<lparr>items := map (\<lambda>it. it\<lparr>isSelected := c\<rparr>) (items h),
                             isAllSelected := c\<rparr>
                      else h) gs)"
proof -
  from wf have names: "distinct (map groupName gs)"
    and ne: "\<And>h. h \<in> set gs \<Longrightarrow> items h \<noteq> []"
    and uniq: "distinct (map id_item (concat (map items gs)))"
    by (simp_all add: wf_groups_def list_all_iff)
  have "group_ok ids' (if groupName h = groupName g
                      then h\<lparr>items := map (\<lambda>it. it\<lparr>isSelected := c\<rparr>) (items h),
                             isAllSelected := c\<rparr>
                      else h)" if h: "h \<in> set gs" for h
  proof (cases "groupName h = groupName g")
    case True
    have hg: "h = g" by (rule same_name_same_group[OF names g h True])
    have "group_ok ids' (g\<lparr>items := map (\<lambda>it. it\<lparr>isSelected := c\<rparr>) (items g),
                            isAllSelected := c\<rparr>)"
      using ne[OF g] by (rule setAll_ok) (simp add: ids')
    with True hg show ?thesis by simp
  next
    case False
    have "group_ok ids' h = group_ok ids h"
    proof (rule group_ok_cong)
      fix it assume "it \<in> set (items h)"
      with uniq g h False have "id_item it \<notin> id_item ` set (items g)"
        by (intro disjoint_groups[of gs g h it]) auto
      then show "(id_item it \<in> ids') = (id_item it \<in> ids)" by (simp add: ids')
    qed
    with ok h False show ?thesis by (simp add: list_all_iff)
  qed
  then have "list_all (\<lambda>h. group_ok ids'
                (if groupName h = groupName g
                 then h\<lparr>items := map (\<lambda>it. it\<lparr>isSelected := c\<rparr>) (items h),
                        isAllSelected := c\<rparr>
                 else h)) gs"
    by (simp add: list_all_iff)
  then show ?thesis by (simp only: list.pred_map comp_def)
qed

lemma added_ids:
  "set (map id_rec (sel @ map toRec (filter (\<lambda>it. \<not> isChosen sel it) its)))
     = set (map id_rec sel) \<union> id_item ` set its"
proof -
  have "map id_rec (map toRec xs) = map id_item xs" for xs
    by (simp add: toRec_def)
  then have "set (map id_rec (sel @ map toRec (filter (\<lambda>it. \<not> isChosen sel it) its)))
               = set (map id_rec sel)
                   \<union> id_item ` {it \<in> set its. id_item it \<notin> set (map id_rec sel)}"
    by (simp add: isChosen_iff del: map_map)
  also have "\<dots> = set (map id_rec sel) \<union> id_item ` set its" by blast
  finally show ?thesis .
qed

lemma removed_ids:
  "set (map id_rec (filter (\<lambda>si. id_rec si \<notin> A) sel)) = set (map id_rec sel) - A"
  by auto

lemma groupSelectLoop_ok:
  assumes wf: "wf_groups gs" and ok: "list_all (group_ok (set (map id_rec sel))) gs"
  shows "list_all (group_ok (set (map id_rec (fst (groupSelectLoop gn c gs sel)))))
           (snd (groupSelectLoop gn c gs sel))"
proof (cases "gn \<in> groupName ` set gs")
  case False
  with ok show ?thesis by (simp add: groupSelectLoop_nomatch)
next
  case True
  then obtain g where g: "g \<in> set gs" "groupName g = gn" by auto
  from wf have names: "distinct (map groupName gs)" by (simp add: wf_groups_def)
  note L = groupSelectLoop_match[OF names g, of c sel]
  have "list_all (group_ok (set (map id_rec (fst (groupSelectLoop gn c gs sel)))))
          (map (\<lambda>h. if groupName h = groupName g
                     then h\<lparr>items := map (\<lambda>it. it\<lparr>isSelected := c\<rparr>) (items h),
                            isAllSelected := c\<rparr>
                     else h) gs)"
    using wf ok g(1)
  proof (rule setAll_groups_ok)
    fix i
    show "(i \<in> set (map id_rec (fst (groupSelectLoop gn c gs sel)))) =
          (if i \<in> id_item ` set (items g) then c else i \<in> set (map id_rec sel))"
      unfolding L by (cases c) (simp_all only: fst_conv if_True if_False added_ids removed_ids
          Un_iff Diff_iff, auto)
  qed
  then show ?thesis unfolding L g(2) by simp
qed

lemma removeGroupLoop_ok:
  assumes wf: "wf_groups gs" and ok: "list_all (group_ok (set (map id_rec sel))) gs"
  shows "list_all (group_ok (set (map id_rec (fst (removeGroupLoop gn gs sel)))))
           (snd (removeGroupLoop gn gs sel))"
proof (cases "gn \<in> groupName ` set gs")
  case False
  with ok show ?thesis by (simp add: removeGroupLoop_nomatch)
next
  case True
  then obtain g where g: "g \<in> set gs" "groupName g = gn" by auto
  from wf have names: "distinct (map groupName gs)" by (simp add: wf_groups_def)
  note L = removeGroupLoop_match[OF names g, of sel]
  have "list_all (group_ok (set (map id_rec (fst (removeGroupLoop gn gs sel)))))
          (map (\<lambda>h. if groupName h = groupName g
                     then h\<lparr>items := map (\<lambda>it. it\<lparr>isSelected := False\<rparr>) (items h),
                            isAllSelected := False\<rparr>
                     else h) gs)"
    using wf ok g(1)
  proof (rule setAll_groups_ok)
    fix i
    show "(i \<in> set (map id_rec (fst (removeGroupLoop gn gs sel)))) =
          (if i \<in> id_item ` set (items g) then False else i \<in> set (map id_rec sel))"
      unfolding L by (simp only: fst_conv removed_ids Diff_iff, auto)
  qed
  then show ?thesis unfolding L g(2) by simp
qed


lemma markGroups_ok:
  assumes ne: "list_all (\<lambda>g. items g \<noteq> []) gs" and ok: "list_all (group_ok ids) gs"
    and m: "\<And>i. i \<in> set (map id_item (concat (map items gs))) \<Longrightarrow>
              (i \<in> ids') = (if h i then v else i \<in> ids)"
  shows "list_all (group_ok ids') (map (markGroup (\<lambda>it. h (id_item it)) v) gs)"
proof -
  have "group_ok ids' (markGroup (\<lambda>it. h (id_item it)) v g)" if g: "g \<in> set gs" for g
  proof (rule markGroup_ok)
    show "items g \<noteq> []" using ne g by (simp add: list_all_iff)
    show "group_ok ids g" using ok g by (simp add: list_all_iff)
    fix it assume "it \<in> set (items g)"
    with g have "id_item it \<in> set (map id_item (concat (map items gs)))" by auto
    then show "(id_item it \<in> ids') = (if h (id_item it) then v else id_item it \<in> ids)"
      by (rule m)
  qed
  then have "list_all (\<lambda>g. group_ok ids' (markGroup (\<lambda>it. h (id_item it)) v g)) gs"
    by (simp add: list_all_iff)
  then show ?thesis by (simp only: list.pred_map comp_def)
qed

lemma toggled_ok:
  "list_all (group_ok ids) (map (\<lambda>g. if groupName g = k then flipExpanded g else g) gs)
     = list_all (group_ok ids) gs"
  by (induction gs) (simp_all add: group_ok_flip)

lemma restoreGroups_ok: "list_all (group_ok ids) (map (restoreGroup ids) gs)"
  by (simp add: list_all_iff restoreGroup_ok)

lemma commit_ids:
  "map id_rec (selectedItems (moveSelectedToChosen s)) =
     map id_rec (selectedItems s)
       @ filter (\<lambda>k. k \<in> loadedIds s \<and> k \<notin> selectedIds s) (tempSelectedItems s)"
  using itemsToAdd_ids
    [of "set (map id_rec (selectedItems s))" "processedData s" "tempSelectedItems s"]
  by (simp add: moveSelectedToChosen_def emitSelectionEvent_def updateSelectedGroupsData_def
      Let_def loadedIds_def selectedIds_def id_rec_toRec del: set_map)

lemma commit_groups:
  "tempSelectedItems s \<noteq> [] \<Longrightarrow>
   processedData (moveSelectedToChosen s)
     = map (markGroup (\<lambda>it. id_item it \<in> set (tempSelectedItems s)) True) (processedData s)"
  by (simp add: moveSelectedToChosen_def emit_fields update_fields Let_def)

lemma uncommit_fields:
  "tempChosenItems s \<noteq> [] \<Longrightarrow>
   processedData (moveChosenToAvailable s)
     = map (markGroup (\<lambda>it. id_item it \<in> set (tempChosenItems s)) False) (processedData s)"
  "tempChosenItems s \<noteq> [] \<Longrightarrow>
   selectedItems (moveChosenToAvailable s)
     = filter (\<lambda>si. id_rec si \<notin> set (tempChosenItems s)) (selectedItems s)"
  by (simp_all add: moveChosenToAvailable_def emit_fields update_fields Let_def)

lemma removeItem_fields:
  "processedData (removeItem i s)
     = map (markGroup (\<lambda>it. id_item it = JStr i) False) (processedData s)"
  "selectedItems (removeItem i s) = filter (\<lambda>si. id_rec si \<noteq> JStr i) (selectedItems s)"
  by (simp_all add: removeItem_def emit_fields update_fields)

lemma loaded_items:
  "it \<in> set (concat (map snd (foldl (addRecord gb pv) [] d))) \<Longrightarrow>
   \<not> isSelected it \<and> id_item it \<in> (\<lambda>r. r ''Id'') ` set (filter kept d)"
  unfolding groupMap_items by (auto simp: itemOf_def)

text \<open>Every operation keeps the groups in agreement with the SelectionSet.\<close>

lemma step_groups_ok:
  assumes r: "rollup_inv s" and fresh: "load_fresh s x"
  shows "list_all (group_ok (selectedIds (step x s))) (processedData (step x s))"
proof -
  from r have wf: "wf_groups (processedData s)"
    and ok: "list_all (group_ok (selectedIds s)) (processedData s)"
    by (simp_all add: rollup_inv_def)
  from wf have ne: "list_all (\<lambda>g. items g \<noteq> []) (processedData s)"
    by (simp add: wf_groups_def)
  show ?thesis
  proof (cases x)
    case (WiredData w)
    show ?thesis
    proof (cases w)
      case (Data d)
      let ?m = "foldl (addRecord (groupBy s) (pickValues s)) [] d"
      show ?thesis
      proof (cases "preSelectedRecords s = []")
        case True
        with fresh WiredData Data
        have new: "\<And>r. r \<in> set (filter kept d) \<Longrightarrow> r ''Id'' \<notin> selectedIds s"
          by (simp add: list_all_iff kept_def)
        have "group_ok (selectedIds s) (newGroup e)" if e: "e \<in> set ?m" for e
        proof (rule newGroup_ok)
          show "snd e \<noteq> []" using e by (rule groupMap_entry(2))
          fix it assume "it \<in> set (snd e)"
          with e have "it \<in> set (concat (map snd ?m))" by auto
          then have u: "\<not> isSelected it"
            and "id_item it \<in> (\<lambda>r. r ''Id'') ` set (filter kept d)"
            using loaded_items by blast+
          then obtain r where "r \<in> set (filter kept d)" and i: "id_item it = r ''Id''"
            by auto
          from new[OF this(1)] u i
          show "\<not> isSelected it \<and> id_item it \<notin> selectedIds s" by simp
        qed
        then have "list_all (group_ok (selectedIds s)) (map newGroup ?m)"
          by (simp add: list_all_iff)
        with True show ?thesis unfolding WiredData Data
          by (simp add: wiredData_Data_fields selectedIds_def)
      next
        case False
        then show ?thesis unfolding WiredData Data
          by (simp only: step.simps wiredData_Data_fields if_False selectedIds_def
              restoreGroups_ok)
      qed
    next
      case (Failure e)
      then show ?thesis unfolding WiredData by (simp add: wiredData_def)
    next
      case Pending
      with ok show ?thesis unfolding WiredData by (simp add: wiredData_def selectedIds_def)
    qed
  next
    case (Set_selectedRecords v)
    show ?thesis
    proof (cases "processedData s \<noteq> [] \<and> listOf v \<noteq> []")
      case True
      then show ?thesis unfolding Set_selectedRecords
        by (simp add: set_selectedRecords_def listOf_def Let_def restore_fields
            selectedIds_def restoreGroups_ok del: set_map)
    next
      case False
      with ok show ?thesis unfolding Set_selectedRecords
        by (auto simp add: set_selectedRecords_def listOf_def Let_def selectedIds_def)
    qed
  next
    case (SetSelectedRecords v)
    show ?thesis
    proof (cases "processedData s \<noteq> [] \<and> listOf v \<noteq> []")
      case True
      then show ?thesis unfolding SetSelectedRecords
        by (simp add: setSelectedRecords_def listOf_def Let_def restore_fields
            selectedIds_def restoreGroups_ok del: set_map)
    next
      case False
      with ok show ?thesis unfolding SetSelectedRecords
        by (auto simp add: setSelectedRecords_def listOf_def Let_def selectedIds_def
            restore_fields)
    qed
  next
    case ResetSelections
    show ?thesis unfolding ResetSelections
      by (simp add: resetSelections_def emit_fields selectedIds_def emitSelectionEvent_def
          list_all_iff reset_ok)
  next
    case (ToggleGroup g)
    with ok show ?thesis
      by (simp add: toggleGroup_def selectedIds_def toggled_ok)
  next
    case (ToggleSelectedGroup g)
    with ok show ?thesis by (simp add: toggleSelectedGroup_def selectedIds_def)
  next
    case (HandleGroupSelect g c)
    show ?thesis unfolding HandleGroupSelect
      using groupSelectLoop_ok[OF wf, of "selectedItems s" "JStr g" c] ok
      by (simp add: handleGroupSelect_fields selectedIds_def del: set_map)
  next
    case (HandleItemSelect i c)
    with ok show ?thesis by (simp add: handleItemSelect_def selectedIds_def)
  next
    case MoveSelectedToChosen
    show ?thesis
    proof (cases "tempSelectedItems s = []")
      case True
      with ok show ?thesis unfolding MoveSelectedToChosen
        by (simp add: moveSelectedToChosen_def)
    next
      case False
      have "list_all (group_ok (selectedIds (moveSelectedToChosen s)))
              (map (markGroup (\<lambda>it. id_item it \<in> set (tempSelectedItems s)) True)
                 (processedData s))"
        using ne ok
      proof (rule markGroups_ok)
        fix i assume "i \<in> set (map id_item (concat (map items (processedData s))))"
        then have "i \<in> loadedIds s" by (simp add: loadedIds_def)
        then show "(i \<in> selectedIds (moveSelectedToChosen s)) =
                   (if i \<in> set (tempSelectedItems s) then True else i \<in> selectedIds s)"
          unfolding selectedIds_def[of "moveSelectedToChosen s"] commit_ids
          by (auto simp: selectedIds_def)
      qed
      with False show ?thesis unfolding MoveSelectedToChosen by (simp add: commit_groups)
    qed
  next
    case MoveChosenToAvailable
    show ?thesis
    proof (cases "tempChosenItems s = []")
      case True
      with ok show ?thesis unfolding MoveChosenToAvailable
        by (simp add: moveChosenToAvailable_def)
    next
      case False
      have "list_all (group_ok (selectedIds (moveChosenToAvailable s)))
              (map (markGroup (\<lambda>it. id_item it \<in> set (tempChosenItems s)) False)
                 (processedData s))"
        using ne ok
      proof (rule markGroups_ok)
        fix i
        show "(i \<in> selectedIds (moveChosenToAvailable s)) =
                   (if i \<in> set (tempChosenItems s) then False else i \<in> selectedIds s)"
          using False by (auto simp: selectedIds_def uncommit_fields)
      qed
      with False show ?thesis unfolding MoveChosenToAvailable
        by (simp add: uncommit_fields)
    qed
  next
    case (SelectChosenItem i)
    with ok show ?thesis by (simp add: selectChosenItem_def selectedIds_def)
  next
    case (RemoveItem i)
    have "list_all (group_ok (selectedIds (removeItem i s)))
            (map (markGroup (\<lambda>it. id_item it = JStr i) False) (processedData s))"
      using ne ok
    proof (rule markGroups_ok)
      fix j
      show "(j \<in> selectedIds (removeItem i s)) =
                 (if j = JStr i then False else j \<in> selectedIds s)"
        by (auto simp: selectedIds_def removeItem_fields)
    qed
    then show ?thesis unfolding RemoveItem by (simp add: removeItem_fields)
  next
    case (RemoveGroup g)
    show ?thesis unfolding RemoveGroup
      using removeGroupLoop_ok[OF wf, of "selectedItems s" "JStr g"] ok
      by (simp add: removeGroup_fields selectedIds_def del: set_map)
  qed
qed

lemma step_rollup_inv: "rollup_inv s \<Longrightarrow> load_fresh s x \<Longrightarrow> rollup_inv (step x s)"
proof -
  assume r: "rollup_inv s" and f: "load_fresh s x"
  from r have wf: "wf_groups (processedData s)" by (simp add: rollup_inv_def)
  have "uniqueIds d" if "x = WiredData (Data d)" for d
    using f that by simp
  with wf have "wf_groups (processedData (step x s))"
    by (rule step_wf)
  with step_groups_ok[OF r f] show ?thesis by (simp add: rollup_inv_def)
qed

lemma initial_rollup_inv: "rollup_inv (initial gb pv)"
  by (simp add: rollup_inv_def wf_groups_def initial_def)

lemma groups_ok_allSelected:
  "list_all (group_ok (selectedIds s)) (processedData s) \<Longrightarrow> allSelected_inv s"
  by (simp add: allSelected_inv_def group_ok_def list_all_iff)

text \<open>
  C2, as the code has it. Along every run from the initial state in which each data load
  delivers unique ids and, when no pre-selected records are pending, meets no id that is
  already chosen, every available group's \<open>isAllSelected\<close> flag is true if and only if the
  group is non-empty and every member id is in the SelectionSet. (A reload that finds its
  ids already chosen resets the flags to false; see the counterexample.)
\<close>

theorem allSelected_rollup:
  assumes "admissible load_fresh (initial gb pv) xs"
  shows "allSelected_inv (run xs (initial gb pv))"
proof -
  have "rollup_inv (run xs (initial gb pv))"
    using step_rollup_inv initial_rollup_inv assms
    by (rule run_invariant[where I = rollup_inv and ok = load_fresh])
  then show ?thesis by (simp add: rollup_inv_def groups_ok_allSelected)
qed

theorem allSelected_rollup_witness:
  "admissible load_fresh (initial (Some ''Cat'') None)
     [WiredData (Data [recA, recB, recC]), HandleItemSelect ''1'' True,
      HandleItemSelect ''2'' True, MoveSelectedToChosen, HandleGroupSelect ''Y'' True,
      RemoveGroup ''X''] \<and>
   allSelected_inv
     (run [WiredData (Data [recA, recB, recC]), HandleItemSelect ''1'' True,
           HandleItemSelect ''2'' True, MoveSelectedToChosen, HandleGroupSelect ''Y'' True,
           RemoveGroup ''X'']
        (initial (Some ''Cat'') None))"
proof -
  have a: "admissible load_fresh (initial (Some ''Cat'') None)
     [WiredData (Data [recA, recB, recC]), HandleItemSelect ''1'' True,
      HandleItemSelect ''2'' True, MoveSelectedToChosen, HandleGroupSelect ''Y'' True,
      RemoveGroup ''X'']"
    by (simp add: initial_def uniqueIds_def selectedIds_def recA_def recB_def recC_def)
  from allSelected_rollup[OF a] a show ?thesis by simp
qed

text \<open>
  C2 as stated fails on a reload: with ids 1 and 2 chosen, loading the same three records
  again rebuilds group X with \<open>isAllSelected\<close> false although X is non-empty and both of
  its ids are in the SelectionSet.
\<close>

theorem allSelected_stale_after_reload:
  "\<not> allSelected_inv (wiredData (Data [recA, recB, recC]) chosenAB)"
  unfolding chosenAB_eval
  by (simp add: allSelected_inv_def selectedIds_def eval_defs)

section \<open>Order and duplicates in the SelectionSet\<close>

lemma keeps_order_append: "set added \<inter> set old = {} \<Longrightarrow> keeps_order old (old @ added)"
proof -
  assume d: "set added \<inter> set old = {}"
  have 1: "filter (\<lambda>i. i \<in> set (old @ added)) old = old"
    by (rule filter_True) simp
  have 2: "filter (\<lambda>i. i \<notin> set old) old = []"
    by (simp add: filter_empty_conv)
  have 3: "filter (\<lambda>i. i \<notin> set old) added = added"
    using d by (intro filter_True) auto
  show ?thesis unfolding keeps_order_def by (simp only: 1 filter_append 2 3 append_Nil)
qed

lemma keeps_order_filter: "keeps_order old (filter P old)"
proof -
  have 1: "filter (\<lambda>i. i \<in> set (filter P old)) old = filter P old"
    by (rule filter_cong) auto
  have 2: "filter (\<lambda>i. i \<notin> set old) (filter P old) = []"
    by (simp add: filter_empty_conv)
  show ?thesis unfolding keeps_order_def by (simp only: 1 2 append_Nil2)
qed

lemma keeps_order_refl: "keeps_order xs xs"
  using keeps_order_append[of "[]" xs] by simp

lemma keeps_order_Nil: "keeps_order old []"
  by (simp add: keeps_order_def)

lemma ids_filter:
  "map id_rec (filter (\<lambda>si. P (id_rec si)) sel) = filter P (map id_rec sel)"
  by (simp add: filter_map comp_def)

text \<open>What the two group loops do to the selection, in any state.\<close>

lemma groupSelectLoop_adds:
  "\<exists>added. map id_rec (fst (groupSelectLoop gn True gs sel)) = map id_rec sel @ added \<and>
           set added \<inter> set (map id_rec sel) = {}"
proof (induction gs arbitrary: sel)
  case Nil
  then show ?case by simp
next
  case (Cons g gs)
  show ?case
  proof (cases "groupName g = gn")
    case False
    with Cons.IH[of sel] show ?thesis by (simp add: split_beta)
  next
    case True
    let ?a = "map toRec (filter (\<lambda>it. \<not> isChosen sel it)
                           (map (\<lambda>it. it\<lparr>isSelected := True\<rparr>) (items g)))"
    from Cons.IH[of "sel @ ?a"] obtain added where
      a: "map id_rec (fst (groupSelectLoop gn True gs (sel @ ?a)))
            = map id_rec (sel @ ?a) @ added"
      and d: "set added \<inter> set (map id_rec (sel @ ?a)) = {}"
      by blast
    have n: "set (map id_rec ?a) \<inter> set (map id_rec sel) = {}"
      by (auto simp: toRec_def isChosen_iff)
    have "map id_rec (fst (groupSelectLoop gn True (g # gs) sel))
            = map id_rec sel @ (map id_rec ?a @ added)"
      using True a by (simp add: split_beta Let_def)
    moreover have "set (map id_rec ?a @ added) \<inter> set (map id_rec sel) = {}"
      using n d by auto
    ultimately show ?thesis by blast
  qed
qed

lemma groupSelectLoop_removes:
  "\<exists>P. fst (groupSelectLoop gn False gs sel) = filter (\<lambda>si. P (id_rec si)) sel"
proof (induction gs arbitrary: sel)
  case Nil
  show ?case by (intro exI[of _ "\<lambda>i. True"]) simp
next
  case (Cons g gs)
  show ?case
  proof (cases "groupName g = gn")
    case False
    with Cons.IH[of sel] show ?thesis by (simp add: split_beta)
  next
    case True
    let ?A = "id_item ` set (items g)"
    from Cons.IH[of "filter (\<lambda>si. id_rec si \<notin> ?A) sel"] obtain P where
      "fst (groupSelectLoop gn False gs (filter (\<lambda>si. id_rec si \<notin> ?A) sel))
         = filter (\<lambda>si. P (id_rec si)) (filter (\<lambda>si. id_rec si \<notin> ?A) sel)"
      by blast
    with True have "fst (groupSelectLoop gn False (g # gs) sel)
                      = filter (\<lambda>si. id_rec si \<notin> ?A \<and> P (id_rec si)) sel"
      by (simp add: split_beta Let_def conj_commute image_image)
    then show ?thesis by (intro exI[of _ "\<lambda>i. i \<notin> ?A \<and> P i"]) simp
  qed
qed

lemma removeGroupLoop_removes:
  "\<exists>P. fst (removeGroupLoop gn gs sel) = filter (\<lambda>si. P (id_rec si)) sel"
proof (induction gs arbitrary: sel)
  case Nil
  show ?case by (intro exI[of _ "\<lambda>i. True"]) simp
next
  case (Cons g gs)
  show ?case
  proof (cases "groupName g = gn")
    case False
    with Cons.IH[of sel] show ?thesis by (simp add: split_beta)
  next
    case True
    let ?A = "id_item ` set (items g)"
    from Cons.IH[of "filter (\<lambda>si. id_rec si \<notin> ?A) sel"] obtain P where
      "fst (removeGroupLoop gn gs (filter (\<lambda>si. id_rec si \<notin> ?A) sel))
         = filter (\<lambda>si. P (id_rec si)) (filter (\<lambda>si. id_rec si \<notin> ?A) sel)"
      by blast
    with True have "fst (removeGroupLoop gn (g # gs) sel)
                      = filter (\<lambda>si. id_rec si \<notin> ?A \<and> P (id_rec si)) sel"
      by (simp add: split_beta Let_def conj_commute)
    then show ?thesis by (intro exI[of _ "\<lambda>i. i \<notin> ?A \<and> P i"]) simp
  qed
qed

lemma groupSelectLoop_distinct:
  "list_all (\<lambda>g. distinct (map id_item (items g))) gs \<Longrightarrow> distinct (map id_rec sel) \<Longrightarrow>
   distinct (map id_rec (fst (groupSelectLoop gn True gs sel)))"
proof (induction gs arbitrary: sel)
  case Nil
  then show ?case by simp
next
  case (Cons g gs)
  show ?case
  proof (cases "groupName g = gn")
    case False
    with Cons show ?thesis by (simp add: split_beta)
  next
    case True
    let ?a = "map toRec (filter (\<lambda>it. \<not> isChosen sel it)
                           (map (\<lambda>it. it\<lparr>isSelected := True\<rparr>) (items g)))"
    have ids: "map id_rec ?a
                 = filter (\<lambda>i. i \<notin> set (map id_rec sel)) (map id_item (items g))"
      by (induction "items g" arbitrary: g) (auto simp: toRec_def isChosen_iff filter_map comp_def)
    from Cons.prems(1) have "distinct (map id_item (items g))" by simp
    then have "distinct (map id_rec ?a)" unfolding ids by simp
    moreover have "set (map id_rec ?a) \<inter> set (map id_rec sel) = {}"
      unfolding ids by auto
    ultimately have "distinct (map id_rec (sel @ ?a))"
      using Cons.prems(2) by auto
    moreover from Cons.prems(1) have "list_all (\<lambda>g. distinct (map id_item (items g))) gs"
      by simp
    ultimately have "distinct (map id_rec (fst (groupSelectLoop gn True gs (sel @ ?a))))"
      by (intro Cons.IH)
    with True show ?thesis by (simp add: split_beta Let_def)
  qed
qed

lemma wf_group_ids:
  "wf_groups gs \<Longrightarrow> list_all (\<lambda>g. distinct (map id_item (items g))) gs"
proof -
  assume "wf_groups gs"
  then have "distinct (map id_item (concat (map items gs)))" by (simp add: wf_groups_def)
  then show ?thesis by (induction gs) auto
qed

lemma commit_noop:
  assumes "set (tempSelectedItems s) \<subseteq> selectedIds s"
  shows "selectedItems (moveSelectedToChosen s) = selectedItems s"
proof -
  let ?new = "filter (\<lambda>i. id_item i \<notin> set (map id_rec (selectedItems s)))
                (List.map_filter (Map_get (idToItem (processedData s))) (tempSelectedItems s))"
  have "map id_item ?new =
          filter (\<lambda>k. k \<in> set (map id_item (concat (map items (processedData s)))) \<and>
                       k \<notin> set (map id_rec (selectedItems s))) (tempSelectedItems s)"
    by (rule itemsToAdd_ids)
  also have "\<dots> = []"
    using assms by (auto simp: filter_empty_conv selectedIds_def)
  finally have "?new = []" by simp
  then show ?thesis
    by (simp add: moveSelectedToChosen_def emit_fields update_fields Let_def)
qed

lemma step_keeps_order:
  assumes "\<not> restores s x"
  shows "keeps_order (map id_rec (selectedItems s)) (map id_rec (selectedItems (step x s)))"
proof (cases x)
  case (WiredData w)
  have "selectedItems (wiredData w s) = selectedItems s"
  proof (cases w)
    case (Data d)
    with assms WiredData show ?thesis by (simp add: wiredData_Data_fields)
  qed (simp_all add: wiredData_def)
  then show ?thesis unfolding WiredData by (simp add: keeps_order_refl)
next
  case (Set_selectedRecords v)
  with assms have "selectedItems (set_selectedRecords v s) = selectedItems s"
    by (auto simp: set_selectedRecords_def listOf_def Let_def)
  then show ?thesis unfolding Set_selectedRecords by (simp add: keeps_order_refl)
next
  case (SetSelectedRecords v)
  with assms have "selectedItems (setSelectedRecords v s) = selectedItems s"
    by (auto simp: setSelectedRecords_def listOf_def Let_def restore_fields)
  then show ?thesis unfolding SetSelectedRecords by (simp add: keeps_order_refl)
next
  case ResetSelections
  then show ?thesis
    by (simp add: resetSelections_def emit_fields keeps_order_Nil)
next
  case (ToggleGroup g)
  then show ?thesis by (simp add: toggleGroup_def keeps_order_refl)
next
  case (ToggleSelectedGroup g)
  then show ?thesis by (simp add: toggleSelectedGroup_def keeps_order_refl)
next
  case (HandleGroupSelect g c)
  show ?thesis
  proof (cases c)
    case True
    from groupSelectLoop_adds[of "JStr g" "processedData s" "selectedItems s"]
    obtain added where
      "map id_rec (fst (groupSelectLoop (JStr g) True (processedData s) (selectedItems s)))
         = map id_rec (selectedItems s) @ added"
      and "set added \<inter> set (map id_rec (selectedItems s)) = {}"
      by blast
    then show ?thesis unfolding HandleGroupSelect using True
      by (simp add: handleGroupSelect_fields keeps_order_append del: set_map)
  next
    case False
    from groupSelectLoop_removes[of "JStr g" "processedData s" "selectedItems s"]
    obtain P where
      "fst (groupSelectLoop (JStr g) False (processedData s) (selectedItems s))
         = filter (\<lambda>si. P (id_rec si)) (selectedItems s)"
      by blast
    then show ?thesis unfolding HandleGroupSelect using False
      by (simp add: handleGroupSelect_fields ids_filter keeps_order_filter)
  qed
next
  case (HandleItemSelect i c)
  then show ?thesis by (simp add: handleItemSelect_def keeps_order_refl)
next
  case MoveSelectedToChosen
  have "set (filter (\<lambda>k. k \<in> loadedIds s \<and> k \<notin> selectedIds s) (tempSelectedItems s))
          \<inter> set (map id_rec (selectedItems s)) = {}"
    by (auto simp: selectedIds_def)
  then show ?thesis unfolding MoveSelectedToChosen
    by (simp only: step.simps commit_ids keeps_order_append)
next
  case MoveChosenToAvailable
  show ?thesis
  proof (cases "tempChosenItems s = []")
    case True
    then show ?thesis unfolding MoveChosenToAvailable
      by (simp add: moveChosenToAvailable_def keeps_order_refl)
  next
    case False
    have "map id_rec (selectedItems (moveChosenToAvailable s))
            = filter (\<lambda>i. i \<notin> set (tempChosenItems s)) (map id_rec (selectedItems s))"
      using False ids_filter[of "\<lambda>i. i \<notin> set (tempChosenItems s)" "selectedItems s"]
      by (simp add: uncommit_fields)
    then show ?thesis unfolding MoveChosenToAvailable
      by (simp only: step.simps keeps_order_filter)
  qed
next
  case (SelectChosenItem i)
  then show ?thesis by (simp add: selectChosenItem_def keeps_order_refl)
next
  case (RemoveItem i)
  have "map id_rec (selectedItems (removeItem i s))
          = filter (\<lambda>j. j \<noteq> JStr i) (map id_rec (selectedItems s))"
    using ids_filter[of "\<lambda>j. j \<noteq> JStr i" "selectedItems s"]
    by (simp add: removeItem_fields)
  then show ?thesis unfolding RemoveItem by (simp only: step.simps keeps_order_filter)
next
  case (RemoveGroup g)
  from removeGroupLoop_removes[of "JStr g" "processedData s" "selectedItems s"]
  obtain P where
    "fst (removeGroupLoop (JStr g) (processedData s) (selectedItems s))
       = filter (\<lambda>si. P (id_rec si)) (selectedItems s)"
    by blast
  then show ?thesis unfolding RemoveGroup
    by (simp only: step.simps removeGroup_fields ids_filter keeps_order_filter)
qed

lemma step_restores:
  assumes "restores s x"
  shows "selectedItems (step x s) = preSelectedRecords (step x s)"
proof (cases x)
  case (WiredData w)
  with assms show ?thesis by (cases w) (simp_all add: wiredData_Data_fields)
next
  case (Set_selectedRecords v)
  with assms show ?thesis
    by (simp add: set_selectedRecords_def listOf_def Let_def restore_fields)
next
  case (SetSelectedRecords v)
  with assms show ?thesis
    by (simp add: setSelectedRecords_def listOf_def Let_def restore_fields)
qed (use assms in simp_all)


lemma handleItemSelect_temp: "distinct (tempSelectedItems s) \<Longrightarrow>
   distinct (tempSelectedItems (handleItemSelect i c s))"
  by (simp add: handleItemSelect_def)

lemma commit_temp: "tempSelectedItems (moveSelectedToChosen s) = []"
  by (simp add: moveSelectedToChosen_def emit_fields update_fields Let_def)

lemma commit_pre: "preSelectedRecords (moveSelectedToChosen s) = preSelectedRecords s"
  by (simp add: moveSelectedToChosen_def emit_fields update_fields Let_def)

lemma uncommit_frame:
  "tempSelectedItems (moveChosenToAvailable s) = tempSelectedItems s"
  "preSelectedRecords (moveChosenToAvailable s) = preSelectedRecords s"
  by (simp_all add: moveChosenToAvailable_def emit_fields update_fields Let_def)

lemma removeItem_frame:
  "tempSelectedItems (removeItem i s) = tempSelectedItems s"
  "preSelectedRecords (removeItem i s) = preSelectedRecords s"
  by (simp_all add: removeItem_def emit_fields update_fields)

lemma distinct_ids_filter:
  "distinct (map id_rec sel) \<Longrightarrow> distinct (map id_rec (filter P sel))"
  by (rule distinct_map_filter)

text \<open>
  With unique ids per group, a duplicate-free staging register and duplicate-free lists from
  the caller, no operation puts an id into the SelectionSet twice.
\<close>

lemma step_selection_inv:
  assumes inv: "selection_inv s" and ok: "inputs_distinct s x"
  shows "selection_inv (step x s)"
proof -
  from inv have wf: "wf_groups (processedData s)"
    and ds: "distinct (map id_rec (selectedItems s))"
    and dt: "distinct (tempSelectedItems s)"
    and dp: "distinct (map id_rec (preSelectedRecords s))"
    by (simp_all add: selection_inv_def)
  have "uniqueIds d" if "x = WiredData (Data d)" for d
    using ok that by simp
  with wf have wf': "wf_groups (processedData (step x s))"
    by (rule step_wf)
  have "distinct (map id_rec (selectedItems (step x s))) \<and>
        distinct (tempSelectedItems (step x s)) \<and>
        distinct (map id_rec (preSelectedRecords (step x s)))"
  proof (cases x)
    case (WiredData w)
    show ?thesis
    proof (cases w)
      case (Data d)
      with ds dt dp show ?thesis unfolding WiredData
        by (simp add: wiredData_Data_fields)
    next
      case (Failure e)
      with ds dt dp show ?thesis unfolding WiredData by (simp add: wiredData_def)
    next
      case Pending
      with ds dt dp show ?thesis unfolding WiredData by (simp add: wiredData_def)
    qed
  next
    case (Set_selectedRecords v)
    from ok have dv: "distinct (map id_rec (listOf v))"
      unfolding Set_selectedRecords by simp
    show ?thesis
    proof (cases "processedData s \<noteq> [] \<and> listOf v \<noteq> []")
      case True
      with dv dt show ?thesis unfolding Set_selectedRecords
        by (simp add: set_selectedRecords_def listOf_def Let_def restore_fields)
    next
      case False
      with dv ds dt show ?thesis unfolding Set_selectedRecords
        by (auto simp add: set_selectedRecords_def listOf_def Let_def)
    qed
  next
    case (SetSelectedRecords v)
    from ok have dv: "distinct (map id_rec (listOf v))"
      unfolding SetSelectedRecords by simp
    show ?thesis
    proof (cases "processedData s \<noteq> [] \<and> listOf v \<noteq> []")
      case True
      with dv dt show ?thesis unfolding SetSelectedRecords
        by (simp add: setSelectedRecords_def listOf_def Let_def restore_fields)
    next
      case False
      with dv ds dt show ?thesis unfolding SetSelectedRecords
        by (auto simp add: setSelectedRecords_def listOf_def Let_def restore_fields)
    qed
  next
    case ResetSelections
    show ?thesis unfolding ResetSelections
      by (simp add: resetSelections_def emit_fields)
  next
    case (ToggleGroup g)
    with ds dt dp show ?thesis by (simp add: toggleGroup_def)
  next
    case (ToggleSelectedGroup g)
    with ds dt dp show ?thesis by (simp add: toggleSelectedGroup_def)
  next
    case (HandleGroupSelect g c)
    have "distinct (map id_rec
            (fst (groupSelectLoop (JStr g) c (processedData s) (selectedItems s))))"
    proof (cases c)
      case True
      from wf_group_ids[OF wf] ds
      have "distinct (map id_rec
              (fst (groupSelectLoop (JStr g) True (processedData s) (selectedItems s))))"
        by (rule groupSelectLoop_distinct)
      with True show ?thesis by simp
    next
      case False
      from groupSelectLoop_removes[of "JStr g" "processedData s" "selectedItems s"]
      obtain P where
        "fst (groupSelectLoop (JStr g) False (processedData s) (selectedItems s))
           = filter (\<lambda>si. P (id_rec si)) (selectedItems s)"
        by blast
      with False ds show ?thesis by (simp add: distinct_ids_filter)
    qed
    with dt dp show ?thesis unfolding HandleGroupSelect
      by (simp add: handleGroupSelect_fields)
  next
    case (HandleItemSelect i c)
    with ds dp handleItemSelect_temp[OF dt, of i c] show ?thesis
      by (simp add: handleItemSelect_def)
  next
    case MoveSelectedToChosen
    have "distinct (map id_rec (selectedItems s)
            @ filter (\<lambda>k. k \<in> loadedIds s \<and> k \<notin> selectedIds s) (tempSelectedItems s))"
      using ds dt by (auto simp: selectedIds_def)
    with dp show ?thesis unfolding MoveSelectedToChosen
      by (simp add: commit_ids commit_temp commit_pre del: distinct_append)
  next
    case MoveChosenToAvailable
    show ?thesis
    proof (cases "tempChosenItems s = []")
      case True
      with ds dt dp show ?thesis unfolding MoveChosenToAvailable
        by (simp add: moveChosenToAvailable_def)
    next
      case False
      with ds dt dp show ?thesis unfolding MoveChosenToAvailable
        by (simp add: uncommit_fields uncommit_frame distinct_ids_filter)
    qed
  next
    case (SelectChosenItem i)
    with ds dt dp show ?thesis by (simp add: selectChosenItem_def)
  next
    case (RemoveItem i)
    with ds dt dp show ?thesis
      by (simp add: removeItem_fields removeItem_frame distinct_ids_filter)
  next
    case (RemoveGroup g)
    from removeGroupLoop_removes[of "JStr g" "processedData s" "selectedItems s"]
    obtain P where
      "fst (removeGroupLoop (JStr g) (processedData s) (selectedItems s))
         = filter (\<lambda>si. P (id_rec si)) (selectedItems s)"
      by blast
    with ds dt dp show ?thesis unfolding RemoveGroup
      by (simp add: removeGroup_fields distinct_ids_filter)
  qed
  with wf' show ?thesis by (simp add: selection_inv_def)
qed

lemma initial_selection_inv: "selection_inv (initial gb pv)"
  by (simp add: selection_inv_def wf_groups_def initial_def)


text \<open>
  C4, as the code has it. Along every run from the initial state in which loads deliver
  unique ids and the lists handed to the pre-selection setters repeat no id, the
  SelectionSet contains no duplicate ids. In every state, an operation that does not
  restore a pre-selection keeps the relative order of the ids that stay and puts new ids
  after them. A restore replaces the SelectionSet by the supplied list as it is, in the
  list's own order and with any repeated ids: handing a non-empty list \<open>X\<close> to
  \<^verbatim>\<open>setSelectedRecords\<close> or to the \<^verbatim>\<open>selectedRecords\<close> setter while a grouping
  is loaded makes the SelectionSet \<open>X\<close>; both always store \<open>X\<close> as the pending
  pre-selection, and a data load that finds a non-empty pending pre-selection makes the
  SelectionSet that list, so a list handed over before the load becomes the SelectionSet at
  the load. Committing staged ids that are all chosen already leaves the SelectionSet
  unchanged.
\<close>

theorem selection_order:
  "(admissible inputs_distinct (initial gb pv) xs \<longrightarrow>
      distinct (map id_rec (selectedItems (run xs (initial gb pv))))) \<and>
   (\<not> restores s x \<longrightarrow>
      keeps_order (map id_rec (selectedItems s)) (map id_rec (selectedItems (step x s)))) \<and>
   (processedData s \<noteq> [] \<and> X \<noteq> [] \<longrightarrow>
      selectedItems (step (SetSelectedRecords (Some X)) s) = X \<and>
      selectedItems (step (Set_selectedRecords (Some X)) s) = X) \<and>
   preSelectedRecords (step (SetSelectedRecords (Some X)) s) = X \<and>
   preSelectedRecords (step (Set_selectedRecords (Some X)) s) = X \<and>
   (preSelectedRecords s \<noteq> [] \<longrightarrow>
      selectedItems (step (WiredData (Data d)) s) = preSelectedRecords s) \<and>
   (X \<noteq> [] \<longrightarrow>
      selectedItems (step (WiredData (Data d)) (step (SetSelectedRecords (Some X)) s)) = X \<and>
      selectedItems (step (WiredData (Data d)) (step (Set_selectedRecords (Some X)) s)) = X) \<and>
   (set (tempSelectedItems s) \<subseteq> selectedIds s \<longrightarrow>
      selectedItems (moveSelectedToChosen s) = selectedItems s)"
proof -
  have 1: "distinct (map id_rec (selectedItems (run xs (initial gb pv))))"
    if a: "admissible inputs_distinct (initial gb pv) xs"
  proof -
    have "selection_inv (run xs (initial gb pv))"
      using step_selection_inv initial_selection_inv a
      by (rule run_invariant[where I = selection_inv and ok = inputs_distinct])
    then show ?thesis by (simp add: selection_inv_def)
  qed
  have 2: "selectedItems (step (SetSelectedRecords (Some X)) s) = X"
          "selectedItems (step (Set_selectedRecords (Some X)) s) = X"
    if "processedData s \<noteq> []" "X \<noteq> []"
    using that
    by (simp_all add: setSelectedRecords_def set_selectedRecords_def Let_def restore_fields)
  have 3: "preSelectedRecords (step (SetSelectedRecords (Some X)) s) = X"
          "preSelectedRecords (step (Set_selectedRecords (Some X)) s) = X"
    by (simp_all add: setSelectedRecords_def set_selectedRecords_def Let_def restore_fields)
  have 4: "selectedItems (step (WiredData (Data d)) t) = preSelectedRecords t"
    if "preSelectedRecords t \<noteq> []" for t
    using that by (simp add: wiredData_Data_fields)
  have 5: "selectedItems (step (WiredData (Data d)) (step (SetSelectedRecords (Some X)) s)) = X"
          "selectedItems (step (WiredData (Data d)) (step (Set_selectedRecords (Some X)) s)) = X"
    if "X \<noteq> []"
    using that 4[of "step (SetSelectedRecords (Some X)) s"]
      4[of "step (Set_selectedRecords (Some X)) s"]
    unfolding 3 by simp_all
  from 1 2 3 4[of s] 5 show ?thesis
    using step_keeps_order[of s x] commit_noop[of s] by blast
qed

theorem selection_order_witness:
  "admissible inputs_distinct (initial (Some ''Cat'') None)
     [WiredData (Data [recA, recB, recC]), HandleGroupSelect ''X'' True,
      SetSelectedRecords (Some [selB, selA]), HandleItemSelect ''3'' True,
      MoveSelectedToChosen] \<and>
   distinct (map id_rec (selectedItems
     (run [WiredData (Data [recA, recB, recC]), HandleGroupSelect ''X'' True,
           SetSelectedRecords (Some [selB, selA]), HandleItemSelect ''3'' True,
           MoveSelectedToChosen]
        (initial (Some ''Cat'') None)))) \<and>
   \<not> restores chosenAB (RemoveItem ''1'') \<and>
   keeps_order (map id_rec (selectedItems chosenAB))
     (map id_rec (selectedItems (step (RemoveItem ''1'') chosenAB))) \<and>
   processedData chosenAB \<noteq> [] \<and> [selB, selA] \<noteq> [] \<and>
   selectedItems chosenAB = [selA, selB] \<and>
   selectedItems (step (SetSelectedRecords (Some [selB, selA])) chosenAB) = [selB, selA] \<and>
   selectedItems (step (Set_selectedRecords (Some [selB, selA])) chosenAB) = [selB, selA] \<and>
   preSelectedRecords (step (SetSelectedRecords (Some [selB, selA])) chosenAB) = [selB, selA] \<and>
   selectedItems
     (step (WiredData (Data [recA, recB, recC]))
        (step (SetSelectedRecords (Some [selB, selA])) (initial (Some ''Cat'') None)))
     = [selB, selA] \<and>
   set (tempSelectedItems (handleItemSelect ''1'' True chosenAB))
     \<subseteq> selectedIds (handleItemSelect ''1'' True chosenAB) \<and>
   selectedItems (moveSelectedToChosen (handleItemSelect ''1'' True chosenAB))
     = [selA, selB]"
proof -
  let ?xs = "[WiredData (Data [recA, recB, recC]), HandleGroupSelect ''X'' True,
      SetSelectedRecords (Some [selB, selA]), HandleItemSelect ''3'' True,
      MoveSelectedToChosen]"
  have a: "admissible inputs_distinct (initial (Some ''Cat'') None) ?xs"
    by (simp add: uniqueIds_def listOf_def recA_def recB_def recC_def selA_def selB_def)
  have b: "\<not> restores chosenAB (RemoveItem ''1'')" by simp
  have c: "processedData chosenAB \<noteq> []" "[selB, selA] \<noteq> []"
    unfolding chosenAB_eval by simp_all
  have d: "set (tempSelectedItems (handleItemSelect ''1'' True chosenAB))
     \<subseteq> selectedIds (handleItemSelect ''1'' True chosenAB)"
    unfolding chosenAB_eval by (simp add: handleItemSelect_def selectedIds_def selA_def)
  have e: "selectedItems chosenAB = [selA, selB]"
    unfolding chosenAB_eval by simp
  have f: "selectedItems (handleItemSelect ''1'' True chosenAB) = [selA, selB]"
    unfolding chosenAB_eval by (simp add: handleItemSelect_def)
  note t = selection_order[of "Some ''Cat''" None ?xs chosenAB "RemoveItem ''1''"
      "[selB, selA]" "[recA, recB, recC]"]
  from t a b
  have 1: "distinct (map id_rec (selectedItems (run ?xs (initial (Some ''Cat'') None))))"
    and 2: "keeps_order (map id_rec (selectedItems chosenAB))
              (map id_rec (selectedItems (step (RemoveItem ''1'') chosenAB)))"
    by blast+
  from t c
  have 3: "selectedItems (step (SetSelectedRecords (Some [selB, selA])) chosenAB)
             = [selB, selA]"
    and 4: "selectedItems (step (Set_selectedRecords (Some [selB, selA])) chosenAB)
             = [selB, selA]"
    and 5: "preSelectedRecords (step (SetSelectedRecords (Some [selB, selA])) chosenAB)
             = [selB, selA]"
    by blast+
  from selection_order[of "Some ''Cat''" None ?xs "initial (Some ''Cat'') None"
      "RemoveItem ''1''" "[selB, selA]" "[recA, recB, recC]"] c(2)
  have 6: "selectedItems
     (step (WiredData (Data [recA, recB, recC]))
        (step (SetSelectedRecords (Some [selB, selA])) (initial (Some ''Cat'') None)))
     = [selB, selA]"
    by blast
  from selection_order[of "Some ''Cat''" None ?xs "handleItemSelect ''1'' True chosenAB"
      MoveSelectedToChosen "[selB, selA]" "[recA, recB, recC]"] d f
  have 7: "selectedItems (moveSelectedToChosen (handleItemSelect ''1'' True chosenAB))
             = [selA, selB]"
    by simp
  from a b c d e 1 2 3 4 5 6 7 show ?thesis by blast
qed

text \<open>
  C4 as stated fails on restore: with ids 1 and 2 chosen, restoring the list 2, 2, 1 stores
  it as it is, so the SelectionSet holds id 2 twice, has grown, and lists 2 before 1.
\<close>

theorem restore_keeps_repeats:
  "map id_rec (selectedItems chosenAB) = [JStr ''1'', JStr ''2''] \<and>
   map id_rec (selectedItems (setSelectedRecords (Some [selB, selB, selA]) chosenAB))
     = [JStr ''2'', JStr ''2'', JStr ''1''] \<and>
   \<not> distinct (map id_rec
        (selectedItems (setSelectedRecords (Some [selB, selB, selA]) chosenAB)))"
  unfolding chosenAB_eval
  by (simp add: setSelectedRecords_def restore_fields Let_def selA_def selB_def)


end
